theory Spec2Isabelle
  imports Main "HOL-Library.AList" "HOL-Library.Multiset" "HOL-Library.Sublist"
begin

section \<open>Python primitives used by inducer.py\<close>

text \<open>Exceptions the program can raise (none of them is caught anywhere in inducer.py).\<close>

datatype error = IndexError | KeyError

text \<open>\<open>str(n)\<close> on a Python integer: decimal digits, with a minus sign for negatives.\<close>

definition digit_char :: "nat \<Rightarrow> char" where
  "digit_char d = ''0123456789'' ! d"

fun digits :: "nat \<Rightarrow> string" where
  "digits n = (if n < 10 then [digit_char n] else digits (n div 10) @ [digit_char (n mod 10)])"

declare digits.simps [simp del]

definition str :: "int \<Rightarrow> string" where
  "str n = (if n < 0 then CHR ''-'' # digits (nat (- n)) else digits (nat n))"

section \<open>class Predicate\<close>

record predicate =
  name :: string
  args :: "string list"

text \<open>
  \<open>Predicate.mkform\<close>: the loop appends each argument, then \<open>)\<close> when the argument
  equals \<open>self.args[-1]\<close> by value and \<open>,\<close> otherwise.
\<close>

definition Predicate_mkform :: "predicate \<Rightarrow> string" where
  "Predicate_mkform p =
     foldl (\<lambda>form arg. form @ arg @ (if arg = last (args p) then '')'' else '',''))
       (name p @ ''('') (args p)"

section \<open>class Node: findArgs\<close>

text \<open>
  \<open>Node.findArgs\<close>: the loop over \<open>range(len(self.strID))\<close> with the accumulators
  \<open>args\<close> (here \<open>argl\<close>) and \<open>arg\<close>; \<open>prev\<close> is \<open>self.strID[i-1]\<close>. For \<open>i = 0\<close> the gap test is skipped.
\<close>

fun findArgs_loop :: "int \<Rightarrow> int list \<Rightarrow> string list \<Rightarrow> string \<Rightarrow> string list" where
  "findArgs_loop prev [] argl arg = argl @ [arg]"
| "findArgs_loop prev (x # xs) argl arg =
     (if x - 1 \<noteq> prev then findArgs_loop x xs (argl @ [arg]) (''Y_'' @ str x)
      else findArgs_loop x xs argl (arg @ ''Y_'' @ str x))"

definition findArgs :: "int list \<Rightarrow> string list" where
  "findArgs ps =
     (case ps of [] \<Rightarrow> [''''] | x # xs \<Rightarrow> findArgs_loop x xs [] (''Y_'' @ str x))"

section \<open>Strings: substring test, replace, split\<close>

text \<open>\<open>sub in s\<close> on Python strings: \<open>sub\<close> occurs in \<open>s\<close> as a contiguous substring.\<close>

fun py_in :: "string \<Rightarrow> string \<Rightarrow> bool" where
  "py_in sub [] = (sub = [])"
| "py_in sub (c # cs) = (prefix sub (c # cs) \<or> py_in sub cs)"

text \<open>
  \<open>s.replace(old, new)\<close>: every non-overlapping occurrence of \<open>old\<close>, found scanning from
  the left, is replaced. With an empty \<open>old\<close> Python inserts \<open>new\<close> before every character
  and at the end.
\<close>

function replace_scan :: "string \<Rightarrow> string \<Rightarrow> string \<Rightarrow> string" where
  "replace_scan old new [] = []"
| "replace_scan old new (c # cs) =
     (if old \<noteq> [] \<and> prefix old (c # cs)
      then new @ replace_scan old new (drop (length old - 1) cs)
      else c # replace_scan old new cs)"
  by pat_completeness auto
termination
  by (relation "measure (\<lambda>(old, new, s). length s)") auto

definition replace :: "string \<Rightarrow> string \<Rightarrow> string \<Rightarrow> string" where
  "replace old new s =
     (if old = [] then new @ concat (map (\<lambda>c. c # new) s) else replace_scan old new s)"

text \<open>\<open>s.split(sep)\<close> for a one-character separator.\<close>

fun py_split :: "char \<Rightarrow> string \<Rightarrow> string list" where
  "py_split sep [] = [[]]"
| "py_split sep (c # cs) =
     (if c = sep then [] # py_split sep cs
      else (case py_split sep cs of [] \<Rightarrow> [[c]] | w # ws \<Rightarrow> (c # w) # ws))"

definition tab :: char where
  "tab = CHR 0x09"

section \<open>class Node and the objects of one tree\<close>

text \<open>
  Node objects are shared by reference: a daughter is the very object that sits in the
  list of leaves or in the dictionary of internal nodes. A reference is the index of a
  leaf in \<open>leaves\<close> or the key of an internal node in \<open>nodes\<close>.
\<close>

datatype ref = Leaf nat | Inner string

record node =
  node_id :: string
  label :: string
  mother :: string
  strID :: "int list"
  daughters :: "ref list"

text \<open>
  The dictionary \<open>nodes\<close> keeps insertion order: assigning to an existing key replaces the
  value in place, a new key goes to the end (\<open>AList.update\<close>).
\<close>

record store =
  leaves :: "node list"
  nodes :: "(string \<times> node) list"

definition deref :: "store \<Rightarrow> ref \<Rightarrow> node" where
  "deref st r = (case r of Leaf s \<Rightarrow> leaves st ! s | Inner k \<Rightarrow> the (map_of (nodes st) k))"

text \<open>\<open>Node.__init__\<close>: \<open>l[0]\<close>, \<open>l[2]\<close>, \<open>l[5]\<close> raise IndexError on a short list.\<close>

definition Node_init :: "string list \<Rightarrow> error + node" where
  "Node_init l =
     (if length l < 6 then Inl IndexError
      else Inr \<lparr>node_id = l ! 0, label = l ! 2, mother = l ! 5, strID = [], daughters = []\<rparr>)"

definition allDaughtersHaveStrID :: "store \<Rightarrow> node \<Rightarrow> bool" where
  "allDaughtersHaveStrID st nd = list_all (\<lambda>d. strID (deref st d) \<noteq> []) (daughters nd)"

text \<open>\<open>Node.getStrID\<close>: the new value of \<open>self.strID\<close>.\<close>

definition getStrID :: "store \<Rightarrow> node \<Rightarrow> int list" where
  "getStrID st nd =
     (if length (daughters nd) = 1 then strID (deref st (daughters nd ! 0))
      else sort (concat (map (\<lambda>d. strID (deref st d)) (daughters nd))))"

section \<open>Grammar.induce: building the tree\<close>

text \<open>A loop whose body may raise: the first exception ends it.\<close>

fun for_each :: "('a \<Rightarrow> 's \<Rightarrow> error + 's) \<Rightarrow> 'a list \<Rightarrow> 's \<Rightarrow> error + 's" where
  "for_each f [] s = Inr s"
| "for_each f (x # xs) s = (case f x s of Inl e \<Rightarrow> Inl e | Inr s' \<Rightarrow> for_each f xs s')"

text \<open>Lines 50-55: one record line; \<open>node.id[0]\<close> raises IndexError on an empty id.\<close>

definition read_record :: "string \<Rightarrow> store \<Rightarrow> error + store" where
  "read_record line st =
     (case Node_init (py_split tab line) of
        Inl e \<Rightarrow> Inl e
      | Inr nd \<Rightarrow>
          (case node_id nd of
             [] \<Rightarrow> Inl IndexError
           | c # key \<Rightarrow>
               if c = CHR ''#'' then Inr (st\<lparr>nodes := AList.update key nd (nodes st)\<rparr>)
               else Inr (st\<lparr>leaves := leaves st @ [nd]\<rparr>)))"

text \<open>Lines 56-61: leaf \<open>s\<close> gets \<open>strID = [s]\<close> and is appended to its mother's daughters.\<close>

definition link_leaf :: "nat \<Rightarrow> store \<Rightarrow> error + store" where
  "link_leaf s st =
     (let lf = (leaves st ! s)\<lparr>strID := [int s]\<rparr> in
      case map_of (nodes st) (mother lf) of
        None \<Rightarrow> Inl KeyError
      | Some mo \<Rightarrow>
          Inr (st\<lparr>leaves := (leaves st)[s := lf],
                 nodes := AList.update (mother lf) (mo\<lparr>daughters := daughters mo @ [Leaf s]\<rparr>)
                            (nodes st)\<rparr>))"

text \<open>
  Lines 62-65: the internal node with key \<open>k\<close> and mother id \<open>m\<close> (the loop reads only
  \<open>node.mother\<close>, which is never reassigned) is appended to its mother's daughters.
\<close>

definition link_node :: "string \<times> node \<Rightarrow> store \<Rightarrow> error + store" where
  "link_node kn st =
     (let k = fst kn; m = mother (snd kn) in
      if m \<noteq> ''0'' then
        (case map_of (nodes st) m of
           None \<Rightarrow> Inl KeyError
         | Some mo \<Rightarrow>
             Inr (st\<lparr>nodes := AList.update m (mo\<lparr>daughters := daughters mo @ [Inner k]\<rparr>)
                                (nodes st)\<rparr>))
      else Inr st)"

definition build :: "string list \<Rightarrow> error + store" where
  "build tree =
     (case for_each read_record tree \<lparr>leaves = [], nodes = []\<rparr> of
        Inl e \<Rightarrow> Inl e
      | Inr st1 \<Rightarrow>
          (case for_each link_leaf [0..<length (leaves st1)] st1 of
             Inl e \<Rightarrow> Inl e
           | Inr st2 \<Rightarrow> for_each link_node (nodes st2) st2))"

section \<open>Grammar.induce: span propagation\<close>

text \<open>
  Lines 66-74. \<open>nodesval\<close> and \<open>nodes2\<close> hold references to internal nodes (their keys).
  The \<open>for\<close> loop walks \<open>nodesval\<close> by index while \<open>remove\<close> shortens it, so the element
  after a removed one is skipped in that pass; \<open>scan i\<close> is the loop from index \<open>i\<close> on.
\<close>

record worklist =
  nodesval :: "string list"
  nodes2 :: "string list"
  objs :: store

definition set_strID :: "string \<Rightarrow> int list \<Rightarrow> store \<Rightarrow> store" where
  "set_strID k v st = st\<lparr>nodes := map (\<lambda>(k', nd). if k' = k then (k', nd\<lparr>strID := v\<rparr>) else (k', nd)) (nodes st)\<rparr>"

function scan :: "nat \<Rightarrow> worklist \<Rightarrow> worklist" where
  "scan i w =
     (if i < length (nodesval w) then
        (let k = nodesval w ! i; nd = deref (objs w) (Inner k) in
         if allDaughtersHaveStrID (objs w) nd
         then scan (i + 1)
                (w\<lparr>objs := set_strID k (getStrID (objs w) nd) (objs w),
                   nodes2 := nodes2 w @ [k],
                   nodesval := remove1 k (nodesval w)\<rparr>)
         else scan (i + 1) w)
      else w)"
  by pat_completeness auto
termination
proof (relation "measure (\<lambda>(i, w). length (nodesval w) - i)")
  show "wf (measure (\<lambda>(i, w). length (nodesval w) - i))" by simp
next
  fix i :: nat and w :: worklist and k nd
  assume "i < length (nodesval w)" and k: "k = nodesval w ! i"
  then have "k \<in> set (nodesval w)" by simp
  then have "length (remove1 k (nodesval w)) = length (nodesval w) - 1"
    by (simp add: length_remove1)
  with \<open>i < length (nodesval w)\<close>
  show "((i + 1, w\<lparr>objs := set_strID k (getStrID (objs w) nd) (objs w),
                  nodes2 := nodes2 w @ [k],
                  nodesval := remove1 k (nodesval w)\<rparr>), i, w)
        \<in> measure (\<lambda>(i, w). length (nodesval w) - i)"
    by simp
next
  fix i :: nat and w :: worklist
  assume "i < length (nodesval w)"
  then show "((i + 1, w), i, w) \<in> measure (\<lambda>(i, w). length (nodesval w) - i)"
    by simp
qed

declare scan.simps [simp del]

partial_function (option) propagate :: "worklist \<Rightarrow> worklist option" where
  "propagate w = (if nodesval w = [] then Some w else propagate (scan 0 w))"

declare propagate.simps [code]

section \<open>class Rule\<close>

datatype rhs = Eps | Preds "predicate list"

record rule =
  lhs :: predicate
  rhs :: rhs
  form :: string

definition Rule_mkform :: "predicate \<Rightarrow> rhs \<Rightarrow> string" where
  "Rule_mkform l r =
     Predicate_mkform l @ ''->'' @
       (case r of Eps \<Rightarrow> ''eps''
        | Preds ps \<Rightarrow> foldl (\<lambda>form pred. form @ Predicate_mkform pred) [] ps)"

text \<open>
  Lines 160-168, the body of the innermost loop for \<open>pred.args[i]\<close> and \<open>self.lhs.args[j]\<close>.
  The state is \<open>(self.lhs.args, pred.args, count)\<close>.
\<close>

definition contract_at ::
  "nat \<Rightarrow> nat \<Rightarrow> string list \<times> string list \<times> nat \<Rightarrow> string list \<times> string list \<times> nat" where
  "contract_at i j = (\<lambda>(la, pa, cnt).
     if py_in (pa ! i) (la ! j) then
       (let v = ''X_'' @ str (int cnt);
            a0 = la ! j @ ''|'';
            a1 = replace (pa ! i @ ''Y'') (v @ ''Y'') a0;
            a2 = replace (pa ! i @ ''X'') (v @ ''X'') a1;
            a3 = replace (pa ! i @ ''|'') (v @ ''|'') a2
        in (la[j := butlast a3], pa[i := v], cnt + 1))
     else (la, pa, cnt))"

text \<open>Lines 158-159: the loops over \<open>i\<close> and \<open>j\<close> for one right-hand-side predicate.\<close>

definition contract_pred ::
  "string list \<times> string list \<times> nat \<Rightarrow> string list \<times> string list \<times> nat" where
  "contract_pred = (\<lambda>(la, pa, cnt).
     fold (\<lambda>i st. fold (contract_at i) [0..<length la] st) [0..<length pa] (la, pa, cnt))"

text \<open>Line 155: the loop over the right-hand-side predicates.\<close>

fun contract_rhs :: "predicate list \<Rightarrow> string list \<Rightarrow> nat \<Rightarrow> string list \<times> predicate list \<times> nat" where
  "contract_rhs [] la cnt = (la, [], cnt)"
| "contract_rhs (p # ps) la cnt =
     (case contract_pred (la, args p, cnt) of
        (la', pa', cnt') \<Rightarrow>
          (case contract_rhs ps la' cnt' of
             (la'', ps', cnt'') \<Rightarrow> (la'', p\<lparr>args := pa'\<rparr> # ps', cnt'')))"

text \<open>\<open>Rule.__init__\<close>; \<open>node.id[0]\<close> raises IndexError on an empty id.\<close>

definition Rule_init :: "store \<Rightarrow> node \<Rightarrow> error + rule" where
  "Rule_init st nd =
     (case node_id nd of
        [] \<Rightarrow> Inl IndexError
      | c # _ \<Rightarrow>
          if c \<noteq> CHR ''#'' then
            (let l = \<lparr>name = label nd, args = [node_id nd]\<rparr>
             in Inr \<lparr>lhs = l, rhs = Eps, form = Rule_mkform l Eps\<rparr>)
          else
            (let l0 = findArgs (strID nd);
                 r0 = map (\<lambda>d. \<lparr>name = label (deref st d), args = findArgs (strID (deref st d))\<rparr>)
                        (daughters nd)
             in case contract_rhs r0 l0 0 of
                  (la, ps, cnt) \<Rightarrow>
                    (let l = \<lparr>name = label nd, args = la\<rparr>
                     in Inr \<lparr>lhs = l, rhs = Preds ps, form = Rule_mkform l (Preds ps)\<rparr>)))"

section \<open>class Grammar\<close>

text \<open>Lines 77-86 (and 89-98): the new rule is appended unless a stored rule has its form.\<close>

definition add_rule :: "rule \<Rightarrow> rule list \<Rightarrow> rule list" where
  "add_rule newrule rules =
     (if rules = [] then rules @ [newrule]
      else if list_ex (\<lambda>rule. form newrule = form rule) rules then rules
      else rules @ [newrule])"

definition add_rule_of :: "store \<Rightarrow> node \<Rightarrow> rule list \<Rightarrow> error + rule list" where
  "add_rule_of st nd rules =
     (case Rule_init st nd of Inl e \<Rightarrow> Inl e | Inr newrule \<Rightarrow> Inr (add_rule newrule rules))"

text \<open>Lines 75-98: first the rules of the leaves, then those of the nodes in \<open>nodes2\<close>.\<close>

definition add_rules :: "worklist \<Rightarrow> rule list \<Rightarrow> error + rule list" where
  "add_rules w rules =
     (case for_each (add_rule_of (objs w)) (leaves (objs w)) rules of
        Inl e \<Rightarrow> Inl e
      | Inr rules' \<Rightarrow>
          for_each (add_rule_of (objs w)) (map (\<lambda>k. deref (objs w) (Inner k)) (nodes2 w)) rules')"

text \<open>
  \<open>Grammar.induce\<close> on the rules stored so far. \<open>None\<close>: the call does not return;
  \<open>Some (Inl e)\<close>: it raises \<open>e\<close>; \<open>Some (Inr rules')\<close>: it returns with the new \<open>self.rules\<close>.
\<close>

definition induce :: "rule list \<Rightarrow> string list \<Rightarrow> (error + rule list) option" where
  "induce rules tree =
     (case build tree of
        Inl e \<Rightarrow> Some (Inl e)
      | Inr st \<Rightarrow>
          (case propagate \<lparr>nodesval = map fst (nodes st), nodes2 = [], objs = st\<rparr> of
             None \<Rightarrow> None
           | Some w \<Rightarrow> Some (add_rules w rules)))"

text \<open>
  Lines 34-40 of \<open>Grammar.__init__\<close>: \<open>induce\<close> on every tree in turn; the loop has no
  exception handler, so an exception of \<open>induce\<close> leaves the loop and the constructor.
\<close>

fun induce_all :: "string list list \<Rightarrow> rule list \<Rightarrow> (error + rule list) option" where
  "induce_all [] rules = Some (Inr rules)"
| "induce_all (tree # trees) rules =
     (case induce rules tree of
        None \<Rightarrow> None
      | Some (Inl e) \<Rightarrow> Some (Inl e)
      | Some (Inr rules') \<Rightarrow> induce_all trees rules')"

definition Grammar_init :: "string list list \<Rightarrow> (error + rule list) option" where
  "Grammar_init trees = induce_all trees []"

section \<open>Example records\<close>

text \<open>
  A record line in the layout \<open>Node.__init__\<close> reads: field 0 the word or \<open>#id\<close>, field 2
  the label, field 5 the mother id, separated by tabs.
\<close>

definition negra_line :: "string \<Rightarrow> string \<Rightarrow> string \<Rightarrow> string" where
  "negra_line w t m =
     w @ [tab] @ ''--'' @ [tab] @ t @ [tab] @ ''--'' @ [tab] @ ''--'' @ [tab] @ m"

text \<open>A tree with a discontinuous constituent: \<open>NP\<close> covers the positions 0 and 2.\<close>

definition tree_gap :: "string list" where
  "tree_gap =
     [negra_line ''a'' ''A'' ''500'', negra_line ''b'' ''B'' ''501'', negra_line ''c'' ''C'' ''500'',
      negra_line ''#500'' ''NP'' ''501'', negra_line ''#501'' ''S'' ''0'']"

text \<open>A tree whose second leaf names a mother id that no record declares.\<close>

definition tree_orphan :: "string list" where
  "tree_orphan =
     [negra_line ''a'' ''A'' ''500'', negra_line ''b'' ''B'' ''502'', negra_line ''#500'' ''S'' ''0'']"

text \<open>A tree whose only internal node is its own mother.\<close>

definition tree_cycle :: "string list" where
  "tree_cycle = [negra_line ''a'' ''A'' ''500'', negra_line ''#500'' ''S'' ''500'']"

text \<open>The forms of the stored rules, in stored order (\<open>prules\<close> of \<open>pprint\<close> before sorting).\<close>

definition forms_of :: "(error + rule list) option \<Rightarrow> (error + string list) option" where
  "forms_of res = map_option (map_sum id (map form)) res"

section \<open>Reference notions for the argument decomposition\<close>

text \<open>Python's \<open>sep.join(xs)\<close>.\<close>

fun join :: "string \<Rightarrow> string list \<Rightarrow> string" where
  "join sep [] = []"
| "join sep [x] = x"
| "join sep (x # y # ys) = x @ sep @ join sep (y # ys)"

text \<open>The token of one terminal position and the text of a sequence of positions.\<close>

definition tok :: "int \<Rightarrow> string" where
  "tok p = ''Y_'' @ str p"

definition render :: "int list \<Rightarrow> string" where
  "render ps = concat (map tok ps)"

text \<open>
  The maximal contiguous runs of a span, as the specification words them: scanning left
  to right, a new component starts whenever the current position is not exactly one
  greater than the previous one. \<open>runs_from x xs\<close> are the runs of \<open>x # xs\<close>.
\<close>

fun runs_from :: "int \<Rightarrow> int list \<Rightarrow> int list list" where
  "runs_from x [] = [[x]]"
| "runs_from x (y # ys) =
     (if y = x + 1
      then (case runs_from y ys of [] \<Rightarrow> [[x]] | r # rs \<Rightarrow> (x # r) # rs)
      else [x] # runs_from y ys)"

definition runs :: "int list \<Rightarrow> int list list" where
  "runs xs = (case xs of [] \<Rightarrow> [] | x # xs' \<Rightarrow> runs_from x xs')"

fun contiguous :: "int list \<Rightarrow> bool" where
  "contiguous (x # y # ys) = (y = x + 1 \<and> contiguous (y # ys))"
| "contiguous _ = True"

fun separated :: "int list list \<Rightarrow> bool" where
  "separated (r # s # rs) = (hd s \<noteq> last r + 1 \<and> separated (s # rs))"
| "separated _ = True"

text \<open>The fan-out of a span: its number of contiguous components, one more than its gaps.\<close>

definition gaps :: "int list \<Rightarrow> (int \<times> int) list" where
  "gaps xs = filter (\<lambda>(a, b). b \<noteq> a + 1) (zip xs (tl xs))"

definition fanout :: "int list \<Rightarrow> nat" where
  "fanout xs = (if xs = [] then 0 else Suc (length (gaps xs)))"

section \<open>Predicate.mkform\<close>

lemma mkform_foldl:
  "foldl (\<lambda>form arg. form @ arg @ sfx arg) acc xs = acc @ concat (map (\<lambda>a. a @ sfx a) xs)"
  by (induction xs arbitrary: acc) simp_all

lemma join_snoc:
  "xs \<noteq> [] \<Longrightarrow> join sep xs = concat (map (\<lambda>a. a @ sep) (butlast xs)) @ last xs"
  by (induction sep xs rule: join.induct) simp_all

lemma concat_sfx_eq:
  "(\<And>a. length (f a) = length (g a)) \<Longrightarrow>
   (concat (map (\<lambda>a. a @ f a) xs) = concat (map (\<lambda>a. a @ g a) xs)) = (\<forall>a \<in> set xs. f a = g a)"
  by (induction xs) auto

text \<open>
  C10. For a predicate with a non-empty argument list, \<open>mkform\<close> returns
  \<open>name(arg1,...,argk)\<close>, the arguments joined by commas between parentheses, exactly
  when the value of the last argument does not occur at an earlier index; so the
  distinctness precondition is sufficient and necessary.
\<close>

theorem Predicate_mkform_join:
  assumes "args p \<noteq> []"
  shows "(Predicate_mkform p = name p @ ''('' @ join '','' (args p) @ '')'')
         = (last (args p) \<notin> set (butlast (args p)))"
proof -
  let ?l = "last (args p)"
  let ?sfx = "\<lambda>a. if a = ?l then '')'' else '',''"
  have split: "args p = butlast (args p) @ [?l]"
    using assms by simp
  have "Predicate_mkform p = name p @ ''('' @ concat (map (\<lambda>a. a @ ?sfx a) (args p))"
    unfolding Predicate_mkform_def by (simp add: mkform_foldl)
  also have "concat (map (\<lambda>a. a @ ?sfx a) (args p))
      = concat (map (\<lambda>a. a @ ?sfx a) (butlast (args p))) @ ?l @ '')''"
    by (subst split) simp
  finally have lhs: "Predicate_mkform p
      = name p @ ''('' @ concat (map (\<lambda>a. a @ ?sfx a) (butlast (args p))) @ ?l @ '')''" .
  have rhs: "join '','' (args p) = concat (map (\<lambda>a. a @ '','') (butlast (args p))) @ ?l"
    using assms by (rule join_snoc)
  have "(concat (map (\<lambda>a. a @ ?sfx a) (butlast (args p)))
         = concat (map (\<lambda>a. a @ '','') (butlast (args p))))
        = (\<forall>a \<in> set (butlast (args p)). ?sfx a = '','')"
    by (rule concat_sfx_eq) simp
  then show ?thesis
    unfolding lhs rhs by auto
qed

theorem Predicate_mkform_join_witness:
  "args \<lparr>name = ''VP'', args = [''X_0X_1'', ''X_2'']\<rparr> \<noteq> [] \<and>
   Predicate_mkform \<lparr>name = ''VP'', args = [''X_0X_1'', ''X_2'']\<rparr> = ''VP(X_0X_1,X_2)''"
  using Predicate_mkform_join [of "\<lparr>name = ''VP'', args = [''X_0X_1'', ''X_2'']\<rparr>"]
  by simp

section \<open>Node.findArgs\<close>

lemma runs_from_nonempty: "runs_from x xs \<noteq> []"
  by (induction xs arbitrary: x) (auto split: list.splits)

lemma findArgs_loop_runs:
  "findArgs_loop x xs argl (pre @ tok x)
     = argl @ [pre @ render (hd (runs_from x xs))] @ map render (tl (runs_from x xs))"
proof (induction xs arbitrary: x argl pre)
  case Nil
  show ?case by (simp add: render_def)
next
  case (Cons y ys)
  obtain r rs where r: "runs_from y ys = r # rs"
    using runs_from_nonempty [of y ys] by (cases "runs_from y ys") auto
  show ?case
  proof (cases "y = x + 1")
    case True
    have "findArgs_loop x (y # ys) argl (pre @ tok x)
            = findArgs_loop y ys argl ((pre @ tok x) @ tok y)"
      using True by (simp add: tok_def)
    also have "\<dots> = argl @ [(pre @ tok x) @ render r] @ map render rs"
      by (subst Cons.IH) (simp add: r)
    finally show ?thesis
      using True r by (simp add: render_def)
  next
    case False
    have "findArgs_loop x (y # ys) argl (pre @ tok x)
            = findArgs_loop y ys (argl @ [pre @ tok x]) ([] @ tok y)"
      using False by (simp add: tok_def)
    also have "\<dots> = (argl @ [pre @ tok x]) @ [[] @ render r] @ map render rs"
      by (subst Cons.IH) (simp add: r)
    finally show ?thesis
      using False r by (simp add: render_def)
  qed
qed

lemma findArgs_runs: "xs \<noteq> [] \<Longrightarrow> findArgs xs = map render (runs xs)"
proof -
  assume "xs \<noteq> []"
  then obtain x xs' where xs: "xs = x # xs'" by (cases xs) auto
  have "findArgs_loop x xs' [] ([] @ tok x)
          = [] @ [[] @ render (hd (runs_from x xs'))] @ map render (tl (runs_from x xs'))"
    by (rule findArgs_loop_runs)
  then show ?thesis
    using runs_from_nonempty [of x xs']
    by (cases "runs_from x xs'") (simp_all add: xs findArgs_def runs_def tok_def)
qed

lemma runs_from_hd: "hd (hd (runs_from x xs)) = x \<and> hd (runs_from x xs) \<noteq> []"
  by (induction xs arbitrary: x) (auto split: list.splits)

lemma runs_from_concat: "concat (runs_from x xs) = x # xs"
proof (induction xs arbitrary: x)
  case Nil
  show ?case by simp
next
  case (Cons y ys)
  show ?case
    using Cons.IH [of y] by (auto split: list.splits)
qed

lemma runs_from_contiguous: "list_all (\<lambda>r. r \<noteq> [] \<and> contiguous r) (runs_from x xs)"
proof (induction xs arbitrary: x)
  case Nil
  show ?case by simp
next
  case (Cons y ys)
  obtain r rs where r: "runs_from y ys = r # rs"
    using runs_from_nonempty [of y ys] by (cases "runs_from y ys") auto
  have hd: "hd r = y" "r \<noteq> []"
    using runs_from_hd [of y ys] by (simp_all add: r)
  then obtain r' where r': "r = y # r'" by (cases r) auto
  show ?case
    using Cons.IH [of y] by (cases "y = x + 1") (use r r' in auto)
qed

lemma runs_from_separated: "separated (runs_from x xs)"
proof (induction xs arbitrary: x)
  case Nil
  show ?case by simp
next
  case (Cons y ys)
  obtain r rs where r: "runs_from y ys = r # rs"
    using runs_from_nonempty [of y ys] by (cases "runs_from y ys") auto
  have hd: "hd r = y" "r \<noteq> []"
    using runs_from_hd [of y ys] by (simp_all add: r)
  have sep: "separated (r # rs)"
    using Cons.IH [of y] by (simp add: r)
  show ?case
  proof (cases "y = x + 1")
    case True
    have "separated ((x # r) # rs)"
      using sep hd by (cases rs) simp_all
    then show ?thesis using True r by simp
  next
    case False
    then show ?thesis using sep hd r by simp
  qed
qed

lemma runs_from_length: "length (runs_from x xs) = Suc (length (gaps (x # xs)))"
proof (induction xs arbitrary: x)
  case Nil
  show ?case by (simp add: gaps_def)
next
  case (Cons y ys)
  obtain r rs where r: "runs_from y ys = r # rs"
    using runs_from_nonempty [of y ys] by (cases "runs_from y ys") auto
  show ?case
    using Cons.IH [of y] by (cases "y = x + 1") (use r in \<open>auto simp: gaps_def\<close>)
qed

text \<open>
  C4 (amended to non-empty spans). For every non-empty \<open>strID\<close> (here \<open>ps\<close>) (in particular every
  non-empty strictly increasing list of non-negative positions), \<open>findArgs\<close> returns the
  texts of the maximal contiguous runs of the list in left-to-right order: the runs
  concatenate to the whole list, each run is non-empty and advances by exactly one, two
  neighbouring runs are separated by a gap, the returned argument strings concatenate to
  one token per position in order, and the number of arguments is the fan-out.
\<close>

theorem findArgs_maximal_runs:
  assumes "ps \<noteq> []"
  shows "findArgs ps = map render (runs ps)
       \<and> concat (runs ps) = ps
       \<and> list_all (\<lambda>r. r \<noteq> [] \<and> contiguous r) (runs ps)
       \<and> separated (runs ps)
       \<and> concat (findArgs ps) = render ps
       \<and> length (findArgs ps) = fanout ps"
proof -
  obtain x xs where xs: "ps = x # xs"
    using assms by (cases ps) auto
  have eq: "findArgs ps = map render (runs ps)"
    using assms by (rule findArgs_runs)
  have cc: "concat (runs ps) = ps"
    by (simp add: xs runs_def runs_from_concat)
  have "concat (map render rs) = render (concat rs)" for rs
    by (induction rs) (simp_all add: render_def)
  then have rd: "concat (findArgs ps) = render ps"
    by (simp add: eq cc)
  show ?thesis
    using eq cc rd runs_from_contiguous [of x xs] runs_from_separated [of x xs]
      runs_from_length [of x xs]
    by (simp add: xs runs_def fanout_def)
qed

theorem findArgs_maximal_runs_witness:
  "[0, 1, 2, 5, 6, 10] \<noteq> ([] :: int list)
   \<and> findArgs [0, 1, 2, 5, 6, 10] = [''Y_0Y_1Y_2'', ''Y_5Y_6'', ''Y_10'']
   \<and> runs [0, 1, 2, 5, 6, 10] = [[0, 1, 2], [5, 6], [10]]
   \<and> length (findArgs [0, 1, 2, 5, 6, 10]) = 3"
  using findArgs_maximal_runs [of "[0, 1, 2, 5, 6, 10]"]
  by (simp add: runs_def render_def tok_def str_def digits.simps digit_char_def fanout_def gaps_def)

text \<open>
  The empty span has no contiguous component (fan-out 0), yet \<open>findArgs\<close> returns one
  argument, the empty string: the final \<open>args.append(arg)\<close> is unconditional.
\<close>

theorem findArgs_empty_counterexample:
  "sorted_wrt (<) ([] :: int list) \<and> findArgs [] = [''''] \<and> runs [] = []
   \<and> length (findArgs []) \<noteq> fanout []"
  by (simp add: findArgs_def runs_def fanout_def)

section \<open>Loops that may raise\<close>

lemma for_each_append:
  "for_each f (xs @ ys) s = (case for_each f xs s of Inl e \<Rightarrow> Inl e | Inr s' \<Rightarrow> for_each f ys s')"
  by (induction xs arbitrary: s) (simp_all split: sum.splits)

lemma for_each_invariant:
  assumes "for_each f xs s = Inr s'" and "P s"
    and "\<And>x t t'. x \<in> set xs \<Longrightarrow> P t \<Longrightarrow> f x t = Inr t' \<Longrightarrow> P t'"
  shows "P s'"
  using assms
proof (induction xs arbitrary: s)
  case Nil
  then show ?case by simp
next
  case (Cons x xs)
  from Cons.prems(1) obtain t where t: "f x s = Inr t" and rest: "for_each f xs t = Inr s'"
    by (auto split: sum.splits)
  have "P t" using Cons.prems(2,3) t by auto
  with rest show ?case using Cons.IH Cons.prems(3) by auto
qed

lemma for_each_error:
  assumes "for_each f xs s = Inl e"
    and "\<And>x t e'. x \<in> set xs \<Longrightarrow> f x t = Inl e' \<Longrightarrow> e' = e0"
  shows "e = e0"
  using assms
proof (induction xs arbitrary: s)
  case Nil
  then show ?case by simp
next
  case (Cons x xs)
  show ?case
  proof (cases "f x s")
    case (Inl e')
    then show ?thesis using Cons.prems by auto
  next
    case (Inr t)
    then show ?thesis using Cons.prems Cons.IH [of t] by auto
  qed
qed

section \<open>The grammar store\<close>

lemma add_rule_iff:
  "add_rule r rs = (if form r \<in> form ` set rs then rs else rs @ [r])"
  by (cases rs) (auto simp: add_rule_def list_ex_iff)

lemma add_rule_distinct:
  "distinct (map form rs) \<Longrightarrow> distinct (map form (add_rule r rs))"
  by (simp add: add_rule_iff)

lemma add_rule_prefix: "prefix rs (add_rule r rs)"
  by (simp add: add_rule_iff)

lemma add_rule_of_keeps:
  assumes "add_rule_of st nd rs = Inr rs'"
  shows "(distinct (map form rs) \<longrightarrow> distinct (map form rs')) \<and> prefix rs rs'"
proof -
  from assms obtain r where "rs' = add_rule r rs"
    by (auto simp: add_rule_of_def split: sum.splits)
  then show ?thesis
    using add_rule_distinct [of rs r] add_rule_prefix [of rs r] by simp
qed

lemma for_each_add_rule_of_keeps:
  assumes "for_each (add_rule_of st) nds rs = Inr rs'" and "distinct (map form rs)"
  shows "distinct (map form rs') \<and> prefix rs rs'"
proof -
  have "distinct (map form rs') \<and> prefix rs rs'"
  proof (rule for_each_invariant [where P = "\<lambda>t. distinct (map form t) \<and> prefix rs t", OF assms(1)])
    show "distinct (map form rs) \<and> prefix rs rs" using assms(2) by simp
  next
    fix x t t'
    assume "distinct (map form t) \<and> prefix rs t" and "add_rule_of st x t = Inr t'"
    then show "distinct (map form t') \<and> prefix rs t'"
      using add_rule_of_keeps [of st x t t'] by (auto intro: prefix_order.trans)
  qed
  then show ?thesis .
qed

lemma add_rules_keeps:
  assumes "add_rules w rs = Inr rs'" and "distinct (map form rs)"
  shows "distinct (map form rs') \<and> prefix rs rs'"
proof -
  from assms(1) obtain mid where
    mid: "for_each (add_rule_of (objs w)) (leaves (objs w)) rs = Inr mid" and
    fin: "for_each (add_rule_of (objs w)) (map (\<lambda>k. deref (objs w) (Inner k)) (nodes2 w)) mid = Inr rs'"
    by (auto simp: add_rules_def split: sum.splits)
  have 1: "distinct (map form mid) \<and> prefix rs mid"
    using mid assms(2) by (rule for_each_add_rule_of_keeps)
  then have 2: "distinct (map form rs') \<and> prefix mid rs'"
    using fin for_each_add_rule_of_keeps by blast
  from 1 2 show ?thesis by (auto intro: prefix_order.trans)
qed

lemma induce_keeps:
  assumes "induce rs tree = Some (Inr rs')" and "distinct (map form rs)"
  shows "distinct (map form rs') \<and> prefix rs rs'"
proof -
  from assms(1) obtain w where "add_rules w rs = Inr rs'"
    by (auto simp: induce_def split: sum.splits option.splits)
  then show ?thesis using assms(2) by (rule add_rules_keeps)
qed

text \<open>
  C7. A new rule is appended exactly when its form differs from the form of every
  stored rule; hence after any sequence of \<open>induce\<close> calls that return (started on rules
  with pairwise different forms, in particular on the empty list of \<open>Grammar.__init__\<close>)
  no two stored rules have the same form, and the rules stored before are still there,
  in their order, at the front.
\<close>

theorem rules_forms_distinct:
  assumes "induce_all trees rules = Some (Inr rules')" and "distinct (map form rules)"
  shows "distinct (map form rules') \<and> prefix rules rules'
       \<and> add_rule r rs = (if form r \<in> form ` set rs then rs else rs @ [r])"
proof -
  have "distinct (map form rules') \<and> prefix rules rules'"
    using assms
  proof (induction trees arbitrary: rules)
    case Nil
    then show ?case by simp
  next
    case (Cons tree trees)
    from Cons.prems(1) obtain mid where
      mid: "induce rules tree = Some (Inr mid)" and rest: "induce_all trees mid = Some (Inr rules')"
      by (auto split: option.splits sum.splits)
    have 1: "distinct (map form mid) \<and> prefix rules mid"
      using mid Cons.prems(2) by (rule induce_keeps)
    then have "distinct (map form rules') \<and> prefix mid rules'"
      using Cons.IH [OF rest] by simp
    with 1 show ?case by (auto intro: prefix_order.trans)
  qed
  then show ?thesis by (simp add: add_rule_iff)
qed

lemma forms_of_returns:
  "forms_of res = Some (Inr fs) \<Longrightarrow> \<exists>rs. res = Some (Inr rs) \<and> map form rs = fs"
proof -
  assume a: "forms_of res = Some (Inr fs)"
  then obtain x where x: "res = Some x" and "map_sum id (map form) x = Inr fs"
    by (auto simp: forms_of_def)
  then obtain rs where "x = Inr rs" "map form rs = fs"
    by (cases x) auto
  with x show ?thesis by blast
qed

lemma forms_tree_gap_twice:
  "forms_of (induce_all [tree_gap, tree_gap] []) =
     Some (Inr [''A(a)->eps'', ''B(b)->eps'', ''C(c)->eps'', ''NP(X_0,X_1)->A(X_0)C(X_1)'',
                ''S(X_1X_0X_2)->B(X_0)NP(X_1,X_2)''])"
  by code_simp

theorem rules_forms_distinct_witness:
  "\<exists>rules'. induce_all [tree_gap, tree_gap] [] = Some (Inr rules')
      \<and> distinct (map form ([] :: rule list))
      \<and> distinct (map form rules') \<and> prefix [] rules'
      \<and> map form rules' = [''A(a)->eps'', ''B(b)->eps'', ''C(c)->eps'',
            ''NP(X_0,X_1)->A(X_0)C(X_1)'', ''S(X_1X_0X_2)->B(X_0)NP(X_1,X_2)'']"
proof -
  from forms_of_returns [OF forms_tree_gap_twice]
  obtain rs where rs: "induce_all [tree_gap, tree_gap] [] = Some (Inr rs)"
    and fs: "map form rs = [''A(a)->eps'', ''B(b)->eps'', ''C(c)->eps'',
            ''NP(X_0,X_1)->A(X_0)C(X_1)'', ''S(X_1X_0X_2)->B(X_0)NP(X_1,X_2)'']"
    by (elim exE conjE)
  have d: "distinct (map form ([] :: rule list))" by simp
  from rules_forms_distinct [OF rs d] have k: "distinct (map form rs)" "prefix [] rs"
    by simp_all
  show ?thesis
    by (rule exI [of _ rs]) (intro conjI rs d k fs)
qed

section \<open>Idempotence of induce\<close>











section \<open>Span propagation: the repeated scan\<close>

lemma scan_length: "length (nodesval (scan i w)) \<le> length (nodesval w)"
proof (induction i w rule: scan.induct)
  case (1 i w)
  show ?case
  proof (cases "i < length (nodesval w)")
    case False
    then show ?thesis by (subst scan.simps) simp
  next
    case True
    let ?k = "nodesval w ! i"
    let ?nd = "deref (objs w) (Inner ?k)"
    show ?thesis
    proof (cases "allDaughtersHaveStrID (objs w) ?nd")
      case ready: True
      let ?w' = "w\<lparr>objs := set_strID ?k (getStrID (objs w) ?nd) (objs w),
                   nodes2 := nodes2 w @ [?k], nodesval := remove1 ?k (nodesval w)\<rparr>"
      have "scan i w = scan (i + 1) ?w'"
        using True ready by (subst scan.simps) (simp add: Let_def)
      moreover have "length (nodesval (scan (i + 1) ?w')) \<le> length (nodesval ?w')"
        using "1.IH"(1) [OF True refl refl ready] .
      moreover have "length (nodesval ?w') \<le> length (nodesval w)"
        by (simp add: length_remove1)
      ultimately show ?thesis by simp
    next
      case notready: False
      have "scan i w = scan (i + 1) w"
        using True notready by (subst scan.simps) (simp add: Let_def)
      then show ?thesis
        using "1.IH"(2) [OF True refl refl notready] by simp
    qed
  qed
qed

lemma scan_no_progress:
  "length (nodesval (scan i w)) = length (nodesval w) \<Longrightarrow> scan i w = w"
proof (induction i w rule: scan.induct)
  case (1 i w)
  show ?case
  proof (cases "i < length (nodesval w)")
    case False
    then show ?thesis by (subst scan.simps) simp
  next
    case True
    let ?k = "nodesval w ! i"
    let ?nd = "deref (objs w) (Inner ?k)"
    show ?thesis
    proof (cases "allDaughtersHaveStrID (objs w) ?nd")
      case ready: True
      let ?w' = "w\<lparr>objs := set_strID ?k (getStrID (objs w) ?nd) (objs w),
                   nodes2 := nodes2 w @ [?k], nodesval := remove1 ?k (nodesval w)\<rparr>"
      have eq: "scan i w = scan (i + 1) ?w'"
        using True ready by (subst scan.simps) (simp add: Let_def)
      have "length (nodesval (scan (i + 1) ?w')) \<le> length (nodesval ?w')"
        by (rule scan_length)
      moreover have "length (nodesval ?w') < length (nodesval w)"
        using True by (simp add: length_remove1)
      ultimately have False using "1.prems" eq by simp
      then show ?thesis ..
    next
      case notready: False
      have eq: "scan i w = scan (i + 1) w"
        using True notready by (subst scan.simps) (simp add: Let_def)
      then show ?thesis
        using "1.IH"(2) [OF True refl refl notready] "1.prems" by simp
    qed
  qed
qed

lemma propagate_passes:
  assumes "propagate w = Some w'"
  shows "\<exists>n. w' = (scan 0 ^^ n) w \<and> nodesval w' = []"
proof (rule propagate.raw_induct
    [where P = "\<lambda>w w'. \<exists>n. w' = (scan 0 ^^ n) w \<and> nodesval w' = []", OF _ assms])
  fix p :: "worklist \<Rightarrow> worklist option" and w w'
  assume IH: "\<And>x y. p x = Some y \<Longrightarrow> \<exists>n. y = (scan 0 ^^ n) x \<and> nodesval y = []"
    and eq: "(if nodesval w = [] then Some w else p (scan 0 w)) = Some w'"
  show "\<exists>n. w' = (scan 0 ^^ n) w \<and> nodesval w' = []"
  proof (cases "nodesval w = []")
    case True
    with eq have "w' = (scan 0 ^^ 0) w \<and> nodesval w' = []" by simp
    then show ?thesis by (rule exI)
  next
    case False
    with eq have "p (scan 0 w) = Some w'" by simp
    from IH [OF this] obtain n where "w' = (scan 0 ^^ n) (scan 0 w)" "nodesval w' = []"
      by (elim exE conjE)
    then have "w' = (scan 0 ^^ Suc n) w \<and> nodesval w' = []"
      by (simp add: funpow_swap1)
    then show ?thesis by (rule exI)
  qed
qed

lemma passes_propagate:
  "nodesval ((scan 0 ^^ n) w) = [] \<Longrightarrow> \<exists>w'. propagate w = Some w'"
proof (induction n arbitrary: w)
  case 0
  then show ?case by (subst propagate.simps) simp
next
  case (Suc n)
  show ?case
  proof (cases "nodesval w = []")
    case True
    then show ?thesis by (subst propagate.simps) simp
  next
    case False
    from Suc.prems have "nodesval ((scan 0 ^^ n) (scan 0 w)) = []"
      by (simp add: funpow_swap1)
    from Suc.IH [OF this] obtain w' where "propagate (scan 0 w) = Some w'" by (elim exE)
    then have "propagate w = Some w'"
      using False by (subst propagate.simps) simp
    then show ?thesis by (rule exI)
  qed
qed

lemma stuck_passes:
  "scan 0 w = w \<Longrightarrow> (scan 0 ^^ n) w = w"
  by (induction n) simp_all

lemma propagate_stuck:
  assumes "nodesval w \<noteq> []" and "length (nodesval (scan 0 w)) = length (nodesval w)"
  shows "propagate w = None"
proof (cases "propagate w")
  case None
  then show ?thesis .
next
  case (Some w')
  from propagate_passes [OF Some] obtain n where "w' = (scan 0 ^^ n) w" "nodesval w' = []"
    by (elim exE conjE)
  moreover have "(scan 0 ^^ n) w = w"
    using assms(2) by (intro stuck_passes scan_no_progress)
  ultimately show ?thesis using assms(1) by simp
qed

text \<open>
  C6 (amended). The span-propagation loop has no error exit: it returns exactly when some
  number of passes of the scan empties \<open>nodesval\<close>, and then no internal node is left
  unresolved in \<open>nodesval\<close>; otherwise the loop runs forever. In particular, once a pass
  over a non-empty \<open>nodesval\<close> resolves no node (a cyclic daughter structure, or an
  internal node whose daughter never gets a non-empty \<open>strID\<close>), the call does not return.
\<close>

theorem propagate_returns_or_diverges:
  "(propagate w = None) = (\<forall>n. nodesval ((scan 0 ^^ n) w) \<noteq> [])
   \<and> (propagate w = Some w' \<longrightarrow> nodesval w' = [])
   \<and> (nodesval w \<noteq> [] \<and> length (nodesval (scan 0 w)) = length (nodesval w)
        \<longrightarrow> propagate w = None)"
proof (intro conjI impI)
  show "(propagate w = None) = (\<forall>n. nodesval ((scan 0 ^^ n) w) \<noteq> [])"
  proof
    assume none: "propagate w = None"
    show "\<forall>n. nodesval ((scan 0 ^^ n) w) \<noteq> []"
    proof
      fix n
      show "nodesval ((scan 0 ^^ n) w) \<noteq> []"
        using passes_propagate [of n w] none by auto
    qed
  next
    assume all: "\<forall>n. nodesval ((scan 0 ^^ n) w) \<noteq> []"
    show "propagate w = None"
    proof (cases "propagate w")
      case None
      then show ?thesis .
    next
      case (Some w'')
      from propagate_passes [OF Some] all show ?thesis by auto
    qed
  qed
next
  assume "propagate w = Some w'"
  from propagate_passes [OF this] show "nodesval w' = []" by auto
next
  assume "nodesval w \<noteq> [] \<and> length (nodesval (scan 0 w)) = length (nodesval w)"
  then show "propagate w = None" using propagate_stuck by simp
qed

lemma build_tree_cycle:
  "build tree_cycle = Inr \<lparr>leaves = [\<lparr>node_id = ''a'', label = ''A'', mother = ''500'', strID = [0], daughters = []\<rparr>],
      nodes = [(''500'', \<lparr>node_id = ''#500'', label = ''S'', mother = ''500'', strID = [],
                           daughters = [Leaf 0, Inner ''500'']\<rparr>)]\<rparr>"
  by code_simp

lemma scan_tree_cycle:
  "length (nodesval (scan 0 \<lparr>nodesval = [''500''], nodes2 = [], objs = \<lparr>leaves = [\<lparr>node_id = ''a'', label = ''A'', mother = ''500'', strID = [0], daughters = []\<rparr>],
      nodes = [(''500'', \<lparr>node_id = ''#500'', label = ''S'', mother = ''500'', strID = [],
                           daughters = [Leaf 0, Inner ''500'']\<rparr>)]\<rparr>\<rparr>)) = 1"
  by code_simp

text \<open>
  On the tree whose internal node is its own mother, \<open>induce\<close> neither returns nor raises.
\<close>

theorem propagate_cycle_counterexample:
  "induce [] tree_cycle = None"
proof -
  let ?st = "\<lparr>leaves = [\<lparr>node_id = ''a'', label = ''A'', mother = ''500'', strID = [0], daughters = []\<rparr>],
      nodes = [(''500'', \<lparr>node_id = ''#500'', label = ''S'', mother = ''500'', strID = [],
                           daughters = [Leaf 0, Inner ''500'']\<rparr>)]\<rparr>"
  let ?w = "\<lparr>nodesval = [''500''], nodes2 = [], objs = ?st\<rparr>"
  have "propagate ?w = None"
    by (rule propagate_stuck) (simp_all add: scan_tree_cycle)
  then show ?thesis
    by (simp add: induce_def build_tree_cycle)
qed

theorem propagate_returns_or_diverges_witness:
  "propagate \<lparr>nodesval = [''500''], nodes2 = [], objs = \<lparr>leaves = [\<lparr>node_id = ''a'', label = ''A'', mother = ''500'', strID = [0], daughters = []\<rparr>],
      nodes = [(''500'', \<lparr>node_id = ''#500'', label = ''S'', mother = ''500'', strID = [],
                           daughters = [Leaf 0, Inner ''500'']\<rparr>)]\<rparr>\<rparr> = None"
  using propagate_returns_or_diverges [of "\<lparr>nodesval = [''500''], nodes2 = [], objs = \<lparr>leaves = [\<lparr>node_id = ''a'', label = ''A'', mother = ''500'', strID = [0], daughters = []\<rparr>],
      nodes = [(''500'', \<lparr>node_id = ''#500'', label = ''S'', mother = ''500'', strID = [],
                           daughters = [Leaf 0, Inner ''500'']\<rparr>)]\<rparr>\<rparr>"]
  by (simp add: scan_tree_cycle)

section \<open>Building the tree: what the three loops of induce leave behind\<close>

lemma update_present:
  "k \<in> fst ` set al \<Longrightarrow> distinct (map fst al) \<Longrightarrow>
   AList.update k v al = map (\<lambda>(k', x). if k' = k then (k', v) else (k', x)) al"
proof (induction al)
  case Nil
  then show ?case by simp
next
  case (Cons p al)
  obtain a b where p: "p = (a, b)" by (cases p)
  show ?case
  proof (cases "a = k")
    case True
    then have "k \<notin> fst ` set al" using Cons.prems(2) p by auto
    then have "map (\<lambda>(k', x). if k' = k then (k', v) else (k', x)) al = al"
      by (intro map_idI) (auto simp: image_iff)
    then show ?thesis using True p by simp
  next
    case False
    then show ?thesis using Cons p by auto
  qed
qed

lemma set_update_subset: "set (AList.update k v al) \<subseteq> insert (k, v) (set al)"
  by (induction al) auto

lemma map_of_map_val:
  "map_of (map (\<lambda>(k, x). (k, f k x)) al) k = map_option (f k) (map_of al k)"
  by (induction al) auto

lemma map_fst_map_val: "map fst (map (\<lambda>(k, x). (k, f k x)) al) = map fst al"
  by (induction al) auto

definition read_ok :: "store \<Rightarrow> bool" where
  "read_ok st \<longleftrightarrow>
     distinct (map fst (nodes st))
     \<and> (\<forall>(k, nd) \<in> set (nodes st). node_id nd = CHR ''#'' # k \<and> strID nd = [] \<and> daughters nd = [])
     \<and> (\<forall>lf \<in> set (leaves st). node_id lf \<noteq> [] \<and> hd (node_id lf) \<noteq> CHR ''#''
            \<and> strID lf = [] \<and> daughters lf = [])"

lemma read_record_cases:
  assumes "read_record line st = Inr st'"
  obtains nd key where "Node_init (py_split tab line) = Inr nd" "node_id nd = CHR ''#'' # key"
      "st' = st\<lparr>nodes := AList.update key nd (nodes st)\<rparr>"
  | nd where "Node_init (py_split tab line) = Inr nd" "node_id nd \<noteq> []" "hd (node_id nd) \<noteq> CHR ''#''"
      "st' = st\<lparr>leaves := leaves st @ [nd]\<rparr>"
proof -
  from assms obtain nd where nd: "Node_init (py_split tab line) = Inr nd"
    by (cases "Node_init (py_split tab line)") (simp_all add: read_record_def)
  show ?thesis
  proof (cases "node_id nd")
    case Nil
    with assms nd show ?thesis by (simp add: read_record_def)
  next
    case (Cons c key)
    show ?thesis
    proof (cases "c = CHR ''#''")
      case True
      with assms nd Cons that(1) [of nd key] show ?thesis by (simp add: read_record_def)
    next
      case False
      with assms nd Cons that(2) [of nd] show ?thesis by (simp add: read_record_def)
    qed
  qed
qed

lemma Node_init_fresh:
  "Node_init l = Inr nd \<Longrightarrow> strID nd = [] \<and> daughters nd = [] \<and> node_id nd = l ! 0"
  by (auto simp: Node_init_def split: if_splits)

lemma read_record_ok:
  assumes "read_record line st = Inr st'" and "read_ok st"
  shows "read_ok st'"
  using assms(1)
proof (cases rule: read_record_cases)
  case (1 nd key)
  have fresh: "strID nd = [] \<and> daughters nd = []"
    using 1(1) Node_init_fresh by blast
  have "set (AList.update key nd (nodes st)) \<subseteq> insert (key, nd) (set (nodes st))"
    by (rule set_update_subset)
  then show ?thesis
    using assms(2) 1(2,3) fresh unfolding read_ok_def
    by (auto simp: distinct_update)
next
  case (2 nd)
  have fresh: "strID nd = [] \<and> daughters nd = []"
    using 2(1) Node_init_fresh by blast
  then show ?thesis
    using assms(2) 2 unfolding read_ok_def by auto
qed

lemma read_records_ok:
  assumes "for_each read_record tree \<lparr>leaves = [], nodes = []\<rparr> = Inr st"
  shows "read_ok st"
proof (rule for_each_invariant [where P = read_ok, OF assms])
  show "read_ok \<lparr>leaves = [], nodes = []\<rparr>" by (simp add: read_ok_def)
next
  fix x t t'
  assume "read_ok t" "read_record x t = Inr t'"
  then show "read_ok t'" by (rule read_record_ok [rotated])
qed

text \<open>The store after the first \<open>m\<close> rounds of the loop over the leaves (lines 56-61).\<close>

definition leaves_linked :: "nat \<Rightarrow> store \<Rightarrow> store" where
  "leaves_linked m st =
     \<lparr>leaves = map (\<lambda>s. if s < m then (leaves st ! s)\<lparr>strID := [int s]\<rparr> else leaves st ! s)
                 [0..<length (leaves st)],
      nodes = map (\<lambda>(k, nd). (k, nd\<lparr>daughters := daughters nd @
                 map Leaf (filter (\<lambda>s. mother (leaves st ! s) = k) [0..<m])\<rparr>)) (nodes st)\<rparr>"

lemma leaves_linked_0: "leaves_linked 0 st = st"
proof -
  have "map (\<lambda>s. leaves st ! s) [0..<length (leaves st)] = leaves st"
    by (rule map_nth)
  moreover have "map (\<lambda>(k, nd). (k, nd\<lparr>daughters := daughters nd\<rparr>)) (nodes st) = nodes st"
    by (intro map_idI) auto
  ultimately show ?thesis by (simp add: leaves_linked_def)
qed

lemma map_of_distinct_in:
  "distinct (map fst al) \<Longrightarrow> (k, v) \<in> set al \<Longrightarrow> map_of al k = Some v"
  by simp

lemma link_leaf_step:
  assumes d: "distinct (map fst (nodes st))" and m: "m < length (leaves st)"
  shows "link_leaf m (leaves_linked m st) =
           (if mother (leaves st ! m) \<in> fst ` set (nodes st)
            then Inr (leaves_linked (Suc m) st) else Inl KeyError)"
proof -
  let ?L = "leaves_linked m st"
  let ?mk = "mother (leaves st ! m)"
  let ?D = "\<lambda>m k. map Leaf (filter (\<lambda>s. mother (leaves st ! s) = k) [0..<m])"
  let ?F = "\<lambda>m (k, nd). (k, nd\<lparr>daughters := daughters nd @ ?D m k\<rparr>)"
  have lm: "leaves ?L ! m = leaves st ! m"
    using m by (simp add: leaves_linked_def)
  have nodesL: "nodes ?L = map (\<lambda>(k, nd). (k, nd\<lparr>daughters := daughters nd @ ?D m k\<rparr>)) (nodes st)"
    by (simp add: leaves_linked_def)
  have look: "map_of (nodes ?L) ?mk
      = map_option (\<lambda>nd. nd\<lparr>daughters := daughters nd @ ?D m ?mk\<rparr>) (map_of (nodes st) ?mk)"
    unfolding nodesL by (rule map_of_map_val)
  show ?thesis
  proof (cases "?mk \<in> fst ` set (nodes st)")
    case False
    then have "map_of (nodes st) ?mk = None"
      by (simp add: map_of_eq_None_iff)
    then show ?thesis
      using False look lm by (simp add: link_leaf_def)
  next
    case True
    then obtain mo0 where mo0: "map_of (nodes st) ?mk = Some mo0"
      by (cases "map_of (nodes st) ?mk") (auto simp: map_of_eq_None_iff)
    let ?mo = "mo0\<lparr>daughters := daughters mo0 @ ?D m ?mk\<rparr>"
    let ?mo' = "?mo\<lparr>daughters := daughters ?mo @ [Leaf m]\<rparr>"
    have lookL: "map_of (nodes ?L) ?mk = Some ?mo"
      using look mo0 by simp
    have res: "link_leaf m ?L = Inr (?L\<lparr>leaves := (leaves ?L)[m := (leaves st ! m)\<lparr>strID := [int m]\<rparr>],
                     nodes := AList.update ?mk ?mo' (nodes ?L)\<rparr>)"
      using lookL lm by (simp add: link_leaf_def Let_def)
    have keysL: "map fst (nodes ?L) = map fst (nodes st)"
      unfolding nodesL by (rule map_fst_map_val)
    have lv: "(leaves ?L)[m := (leaves st ! m)\<lparr>strID := [int m]\<rparr>] = leaves (leaves_linked (Suc m) st)"
      using m by (intro nth_equalityI) (auto simp: leaves_linked_def nth_list_update less_Suc_eq)
    have "AList.update ?mk ?mo' (nodes ?L)
            = map (\<lambda>(k', x). if k' = ?mk then (k', ?mo') else (k', x)) (nodes ?L)"
    proof (rule update_present)
      have "fst ` set (nodes ?L) = set (map fst (nodes ?L))" by simp
      also have "\<dots> = fst ` set (nodes st)" unfolding keysL by simp
      finally show "?mk \<in> fst ` set (nodes ?L)" using True by simp
      show "distinct (map fst (nodes ?L))" unfolding keysL by (rule d)
    qed
    also have "\<dots> = map (\<lambda>(k, nd). (k, nd\<lparr>daughters := daughters nd @ ?D (Suc m) k\<rparr>)) (nodes st)"
      unfolding nodesL map_map
    proof (rule map_cong [OF refl])
      fix p assume p: "p \<in> set (nodes st)"
      obtain k nd where kn: "p = (k, nd)" by (cases p)
      show "((\<lambda>(k', x). if k' = ?mk then (k', ?mo') else (k', x)) \<circ>
             (\<lambda>(k, nd). (k, nd\<lparr>daughters := daughters nd @ ?D m k\<rparr>))) p
            = (\<lambda>(k, nd). (k, nd\<lparr>daughters := daughters nd @ ?D (Suc m) k\<rparr>)) p"
      proof (cases "k = ?mk")
        case True
        then have "nd = mo0"
          using p kn mo0 d by (simp add: map_of_distinct_in)
        then show ?thesis using True kn by simp
      next
        case False
        then show ?thesis using kn by simp
      qed
    qed
    also have "\<dots> = nodes (leaves_linked (Suc m) st)"
      by (simp add: leaves_linked_def)
    finally have nd: "AList.update ?mk ?mo' (nodes ?L) = nodes (leaves_linked (Suc m) st)" .
    have "?L\<lparr>leaves := (leaves ?L)[m := (leaves st ! m)\<lparr>strID := [int m]\<rparr>],
              nodes := AList.update ?mk ?mo' (nodes ?L)\<rparr> = leaves_linked (Suc m) st"
      unfolding lv nd by simp
    then show ?thesis using res True by simp
  qed
qed

lemma link_leaves_closed:
  assumes d: "distinct (map fst (nodes st))" and m: "m \<le> length (leaves st)"
  shows "for_each link_leaf [0..<m] st =
           (if \<forall>s<m. mother (leaves st ! s) \<in> fst ` set (nodes st)
            then Inr (leaves_linked m st) else Inl KeyError)"
  using m
proof (induction m)
  case 0
  show ?case by (simp add: leaves_linked_0)
next
  case (Suc m)
  have IH: "for_each link_leaf [0..<m] st =
           (if \<forall>s<m. mother (leaves st ! s) \<in> fst ` set (nodes st)
            then Inr (leaves_linked m st) else Inl KeyError)"
    using Suc by simp
  have step: "link_leaf m (leaves_linked m st) =
           (if mother (leaves st ! m) \<in> fst ` set (nodes st)
            then Inr (leaves_linked (Suc m) st) else Inl KeyError)"
    using d Suc.prems by (intro link_leaf_step) simp_all
  have "for_each link_leaf [0..<Suc m] st =
          (case for_each link_leaf [0..<m] st of Inl e \<Rightarrow> Inl e
           | Inr s' \<Rightarrow> for_each link_leaf [m] s')"
    by (simp add: for_each_append)
  also have "\<dots> = (if \<forall>s<Suc m. mother (leaves st ! s) \<in> fst ` set (nodes st)
            then Inr (leaves_linked (Suc m) st) else Inl KeyError)"
    unfolding IH using step by (auto simp: less_Suc_eq)
  finally show ?case .
qed

text \<open>The store after the first \<open>m\<close> rounds of the loop over \<open>nodes.values()\<close> (lines 62-65).\<close>

definition nodes_linked :: "nat \<Rightarrow> store \<Rightarrow> store" where
  "nodes_linked m st =
     st\<lparr>nodes := map (\<lambda>(k, nd). (k, nd\<lparr>daughters := daughters nd @
            map (\<lambda>p. Inner (fst p))
              (filter (\<lambda>p. mother (snd p) \<noteq> ''0'' \<and> mother (snd p) = k) (take m (nodes st)))\<rparr>))
          (nodes st)\<rparr>"

lemma nodes_linked_0: "nodes_linked 0 st = st"
proof -
  have "map (\<lambda>(k, nd). (k, nd\<lparr>daughters := daughters nd\<rparr>)) (nodes st) = nodes st"
    by (intro map_idI) auto
  then show ?thesis by (simp add: nodes_linked_def)
qed

lemma link_node_step:
  assumes d: "distinct (map fst (nodes st))" and m: "m < length (nodes st)"
  shows "link_node (nodes st ! m) (nodes_linked m st) =
           (if mother (snd (nodes st ! m)) = ''0'' \<or> mother (snd (nodes st ! m)) \<in> fst ` set (nodes st)
            then Inr (nodes_linked (Suc m) st) else Inl KeyError)"
proof -
  let ?N = "nodes_linked m st"
  let ?k = "fst (nodes st ! m)"
  let ?mk = "mother (snd (nodes st ! m))"
  let ?D = "\<lambda>m k. map (\<lambda>p. Inner (fst p))
              (filter (\<lambda>p. mother (snd p) \<noteq> ''0'' \<and> mother (snd p) = k) (take m (nodes st)))"
  have nodesN: "nodes ?N = map (\<lambda>(k, nd). (k, nd\<lparr>daughters := daughters nd @ ?D m k\<rparr>)) (nodes st)"
    by (simp add: nodes_linked_def)
  have tk: "take (Suc m) (nodes st) = take m (nodes st) @ [nodes st ! m]"
    using m by (rule take_Suc_conv_app_nth)
  show ?thesis
  proof (cases "?mk = ''0''")
    case True
    have "?D (Suc m) k = ?D m k" for k
      unfolding tk using True by simp
    then have "nodes_linked (Suc m) st = ?N"
      by (simp add: nodes_linked_def)
    then show ?thesis using True by (simp add: link_node_def)
  next
    case no0: False
    have look: "map_of (nodes ?N) ?mk
        = map_option (\<lambda>nd. nd\<lparr>daughters := daughters nd @ ?D m ?mk\<rparr>) (map_of (nodes st) ?mk)"
      unfolding nodesN by (rule map_of_map_val)
    show ?thesis
    proof (cases "?mk \<in> fst ` set (nodes st)")
      case False
      then have "map_of (nodes st) ?mk = None"
        by (simp add: map_of_eq_None_iff)
      then show ?thesis
        using False look no0 by (simp add: link_node_def)
    next
      case True
      then obtain mo0 where mo0: "map_of (nodes st) ?mk = Some mo0"
        by (cases "map_of (nodes st) ?mk") (auto simp: map_of_eq_None_iff)
      let ?mo = "mo0\<lparr>daughters := daughters mo0 @ ?D m ?mk\<rparr>"
      let ?mo' = "?mo\<lparr>daughters := daughters ?mo @ [Inner ?k]\<rparr>"
      have lookN: "map_of (nodes ?N) ?mk = Some ?mo"
        using look mo0 by simp
      have res: "link_node (nodes st ! m) ?N = Inr (?N\<lparr>nodes := AList.update ?mk ?mo' (nodes ?N)\<rparr>)"
        using lookN no0 by (simp add: link_node_def Let_def)
      have keysN: "map fst (nodes ?N) = map fst (nodes st)"
        unfolding nodesN by (rule map_fst_map_val)
      have "AList.update ?mk ?mo' (nodes ?N)
              = map (\<lambda>(k', x). if k' = ?mk then (k', ?mo') else (k', x)) (nodes ?N)"
      proof (rule update_present)
        have "fst ` set (nodes ?N) = set (map fst (nodes ?N))" by simp
        also have "\<dots> = fst ` set (nodes st)" unfolding keysN by simp
        finally show "?mk \<in> fst ` set (nodes ?N)" using True by simp
        show "distinct (map fst (nodes ?N))" unfolding keysN by (rule d)
      qed
      also have "\<dots> = map (\<lambda>(k, nd). (k, nd\<lparr>daughters := daughters nd @ ?D (Suc m) k\<rparr>)) (nodes st)"
        unfolding nodesN map_map
      proof (rule map_cong [OF refl])
        fix p assume p: "p \<in> set (nodes st)"
        obtain k nd where kn: "p = (k, nd)" by (cases p)
        show "((\<lambda>(k', x). if k' = ?mk then (k', ?mo') else (k', x)) \<circ>
               (\<lambda>(k, nd). (k, nd\<lparr>daughters := daughters nd @ ?D m k\<rparr>))) p
              = (\<lambda>(k, nd). (k, nd\<lparr>daughters := daughters nd @ ?D (Suc m) k\<rparr>)) p"
        proof (cases "k = ?mk")
          case True
          then have "nd = mo0"
            using p kn mo0 d by (simp add: map_of_distinct_in)
          then show ?thesis using True kn no0 unfolding tk by simp
        next
          case False
          then show ?thesis using kn unfolding tk by simp
        qed
      qed
      also have "\<dots> = nodes (nodes_linked (Suc m) st)"
        by (simp add: nodes_linked_def)
      finally have nd: "AList.update ?mk ?mo' (nodes ?N) = nodes (nodes_linked (Suc m) st)" .
      have "?N\<lparr>nodes := AList.update ?mk ?mo' (nodes ?N)\<rparr> = nodes_linked (Suc m) st"
        unfolding nd by (simp add: nodes_linked_def)
      then show ?thesis using res True by simp
    qed
  qed
qed

lemma link_nodes_closed:
  assumes d: "distinct (map fst (nodes st))" and m: "m \<le> length (nodes st)"
  shows "for_each link_node (take m (nodes st)) st =
           (if \<forall>i<m. mother (snd (nodes st ! i)) = ''0'' \<or> mother (snd (nodes st ! i)) \<in> fst ` set (nodes st)
            then Inr (nodes_linked m st) else Inl KeyError)"
  using m
proof (induction m)
  case 0
  show ?case by (simp add: nodes_linked_0)
next
  case (Suc m)
  let ?ok = "\<lambda>i. mother (snd (nodes st ! i)) = ''0'' \<or> mother (snd (nodes st ! i)) \<in> fst ` set (nodes st)"
  have IH: "for_each link_node (take m (nodes st)) st =
           (if \<forall>i<m. ?ok i then Inr (nodes_linked m st) else Inl KeyError)"
    using Suc by simp
  have step: "link_node (nodes st ! m) (nodes_linked m st) =
           (if ?ok m then Inr (nodes_linked (Suc m) st) else Inl KeyError)"
    using d Suc.prems by (intro link_node_step) simp_all
  have tk: "take (Suc m) (nodes st) = take m (nodes st) @ [nodes st ! m]"
    using Suc.prems by (intro take_Suc_conv_app_nth) simp
  have "for_each link_node (take (Suc m) (nodes st)) st =
          (case for_each link_node (take m (nodes st)) st of Inl e \<Rightarrow> Inl e
           | Inr s' \<Rightarrow> for_each link_node [nodes st ! m] s')"
    unfolding tk by (rule for_each_append)
  also have "\<dots> = (if \<forall>i<Suc m. ?ok i then Inr (nodes_linked (Suc m) st) else Inl KeyError)"
    unfolding IH using step by (auto simp: less_Suc_eq)
  finally show ?case .
qed

text \<open>Every mother id that the two linking loops look up is a key of \<open>nodes\<close>.\<close>

definition mothers_resolve :: "store \<Rightarrow> bool" where
  "mothers_resolve st \<longleftrightarrow>
     (\<forall>s<length (leaves st). mother (leaves st ! s) \<in> fst ` set (nodes st))
     \<and> (\<forall>i<length (nodes st). mother (snd (nodes st ! i)) = ''0''
            \<or> mother (snd (nodes st ! i)) \<in> fst ` set (nodes st))"

text \<open>
  The daughters of the internal node with key \<open>k\<close>, as the mother ids name them: its leaves
  in the order of \<open>leaves\<close>, its internal daughters in the order of the dictionary.
\<close>

definition leaf_daughters :: "store \<Rightarrow> string \<Rightarrow> ref list" where
  "leaf_daughters st k =
     map Leaf (filter (\<lambda>s. mother (leaves st ! s) = k) [0..<length (leaves st)])"

definition inner_daughters :: "store \<Rightarrow> string \<Rightarrow> ref list" where
  "inner_daughters st k =
     map Inner (filter (\<lambda>k'. mother (deref st (Inner k')) \<noteq> ''0'' \<and> mother (deref st (Inner k')) = k)
                  (map fst (nodes st)))"

text \<open>What holds of the objects of a tree when the three loops have run without raising.\<close>

definition linked :: "store \<Rightarrow> bool" where
  "linked st \<longleftrightarrow>
     distinct (map fst (nodes st))
     \<and> (\<forall>s<length (leaves st).
           strID (leaves st ! s) = [int s] \<and> mother (leaves st ! s) \<in> fst ` set (nodes st)
           \<and> node_id (leaves st ! s) \<noteq> [] \<and> hd (node_id (leaves st ! s)) \<noteq> CHR ''#'')
     \<and> (\<forall>(k, nd) \<in> set (nodes st).
           node_id nd = CHR ''#'' # k \<and> strID nd = []
           \<and> (mother nd = ''0'' \<or> mother nd \<in> fst ` set (nodes st))
           \<and> daughters nd = leaf_daughters st k @ inner_daughters st k)"

lemma deref_in:
  "distinct (map fst (nodes st)) \<Longrightarrow> (k, nd) \<in> set (nodes st) \<Longrightarrow> deref st (Inner k) = nd"
  by (simp add: deref_def)

lemma leaves_linked_all:
  "leaves (leaves_linked (length (leaves st)) st)
     = map (\<lambda>s. (leaves st ! s)\<lparr>strID := [int s]\<rparr>) [0..<length (leaves st)]"
  by (simp add: leaves_linked_def)

lemma nodes_linked_leaves: "leaves (nodes_linked m st) = leaves st"
  by (simp add: nodes_linked_def)

lemma nodes_leaves_linked:
  "nodes (leaves_linked m st) = map (\<lambda>(k, nd). (k, nd\<lparr>daughters := daughters nd @
      map Leaf (filter (\<lambda>s. mother (leaves st ! s) = k) [0..<m])\<rparr>)) (nodes st)"
  by (simp add: leaves_linked_def)

lemma nodes_nodes_linked:
  "nodes (nodes_linked m st) = map (\<lambda>(k, nd). (k, nd\<lparr>daughters := daughters nd @
      map (\<lambda>p. Inner (fst p))
        (filter (\<lambda>p. mother (snd p) \<noteq> ''0'' \<and> mother (snd p) = k) (take m (nodes st)))\<rparr>)) (nodes st)"
  by (simp add: nodes_linked_def)

lemma keys_leaves_linked: "map fst (nodes (leaves_linked m st)) = map fst (nodes st)"
  unfolding nodes_leaves_linked by (rule map_fst_map_val)

lemma keys_nodes_linked: "map fst (nodes (nodes_linked m st)) = map fst (nodes st)"
  unfolding nodes_nodes_linked by (rule map_fst_map_val)

lemma mothers_leaves_linked:
  "map (\<lambda>p. mother (snd p)) (nodes (leaves_linked m st)) = map (\<lambda>p. mother (snd p)) (nodes st)"
  unfolding nodes_leaves_linked by (induction "nodes st") auto

lemma build_closed:
  assumes r: "for_each read_record tree \<lparr>leaves = [], nodes = []\<rparr> = Inr st1"
  shows "build tree =
           (if mothers_resolve st1
            then Inr (nodes_linked (length (nodes st1)) (leaves_linked (length (leaves st1)) st1))
            else Inl KeyError)"
proof -
  let ?n = "length (leaves st1)"
  let ?st2 = "leaves_linked ?n st1"
  have d1: "distinct (map fst (nodes st1))"
    using read_records_ok [OF r] by (simp add: read_ok_def)
  have p2: "for_each link_leaf [0..<?n] st1 =
           (if \<forall>s<?n. mother (leaves st1 ! s) \<in> fst ` set (nodes st1)
            then Inr ?st2 else Inl KeyError)"
    using d1 by (intro link_leaves_closed) simp_all
  have d2: "distinct (map fst (nodes ?st2))"
    unfolding keys_leaves_linked by (rule d1)
  have len2: "length (nodes ?st2) = length (nodes st1)"
    using keys_leaves_linked [of ?n st1] by (metis length_map)
  have keys2: "fst ` set (nodes ?st2) = fst ` set (nodes st1)"
    using keys_leaves_linked [of ?n st1] by (metis set_map)
  have mo2: "mother (snd (nodes ?st2 ! i)) = mother (snd (nodes st1 ! i))" if "i < length (nodes st1)" for i
  proof -
    have "map (\<lambda>p. mother (snd p)) (nodes ?st2) ! i = map (\<lambda>p. mother (snd p)) (nodes st1) ! i"
      by (simp only: mothers_leaves_linked)
    then show ?thesis using that len2 by simp
  qed
  have "for_each link_node (nodes ?st2) ?st2 = for_each link_node (take (length (nodes ?st2)) (nodes ?st2)) ?st2"
    by simp
  also have "\<dots> =
           (if \<forall>i<length (nodes ?st2). mother (snd (nodes ?st2 ! i)) = ''0''
                 \<or> mother (snd (nodes ?st2 ! i)) \<in> fst ` set (nodes ?st2)
            then Inr (nodes_linked (length (nodes ?st2)) ?st2) else Inl KeyError)"
    using d2 by (intro link_nodes_closed) simp_all
  also have "\<dots> =
           (if \<forall>i<length (nodes st1). mother (snd (nodes st1 ! i)) = ''0''
                 \<or> mother (snd (nodes st1 ! i)) \<in> fst ` set (nodes st1)
            then Inr (nodes_linked (length (nodes st1)) ?st2) else Inl KeyError)"
    unfolding len2 keys2 using mo2 by simp
  finally have p3: "for_each link_node (nodes ?st2) ?st2 =
           (if \<forall>i<length (nodes st1). mother (snd (nodes st1 ! i)) = ''0''
                 \<or> mother (snd (nodes st1 ! i)) \<in> fst ` set (nodes st1)
            then Inr (nodes_linked (length (nodes st1)) ?st2) else Inl KeyError)" .
  show ?thesis
  proof (cases "\<forall>s<?n. mother (leaves st1 ! s) \<in> fst ` set (nodes st1)")
    case False
    then have "for_each link_leaf [0..<?n] st1 = Inl KeyError" using p2 by simp
    moreover have "\<not> mothers_resolve st1" using False by (simp add: mothers_resolve_def)
    ultimately show ?thesis by (simp add: build_def r)
  next
    case True
    then have "for_each link_leaf [0..<?n] st1 = Inr ?st2" using p2 by simp
    then have "build tree = for_each link_node (nodes ?st2) ?st2"
      by (simp add: build_def r)
    then show ?thesis
      unfolding p3 using True by (simp add: mothers_resolve_def)
  qed
qed

section \<open>A mother id that does not resolve\<close>

lemma mothers_resolve_bad:
  assumes "\<exists>nd \<in> set (leaves st) \<union> snd ` set (nodes st).
             mother nd \<noteq> ''0'' \<and> mother nd \<notin> fst ` set (nodes st)"
  shows "\<not> mothers_resolve st"
proof -
  from assms obtain nd where nd: "nd \<in> set (leaves st) \<union> snd ` set (nodes st)"
    and bad: "mother nd \<noteq> ''0''" "mother nd \<notin> fst ` set (nodes st)"
    by blast
  from nd show ?thesis
  proof
    assume "nd \<in> set (leaves st)"
    then obtain s where "s < length (leaves st)" "leaves st ! s = nd"
      by (auto simp: in_set_conv_nth)
    then show ?thesis using bad by (auto simp: mothers_resolve_def)
  next
    assume "nd \<in> snd ` set (nodes st)"
    then obtain p where "p \<in> set (nodes st)" "snd p = nd" by auto
    then obtain i where "i < length (nodes st)" "snd (nodes st ! i) = nd"
      by (auto simp: in_set_conv_nth)
    then show ?thesis using bad by (auto simp: mothers_resolve_def)
  qed
qed

text \<open>
  C5 (amended). When every record of a tree can be read and some surviving record names
  a mother id that is neither \<open>0\<close> nor the id of an internal node of the tree, the
  dictionary lookup of the linking loops raises \<open>KeyError\<close> (there is no
  \<open>MalformedTree\<close> error): \<open>build\<close> fails before any rule of the tree is made, so
  nothing is appended to \<open>self.rules\<close>; and as nothing catches the exception it leaves
  the loop of \<open>Grammar.__init__\<close>, whatever trees follow.
\<close>

theorem unresolved_mother_raises:
  assumes "for_each read_record tree \<lparr>leaves = [], nodes = []\<rparr> = Inr st1"
    and "\<exists>nd \<in> set (leaves st1) \<union> snd ` set (nodes st1).
           mother nd \<noteq> ''0'' \<and> mother nd \<notin> fst ` set (nodes st1)"
  shows "build tree = Inl KeyError \<and> induce rules tree = Some (Inl KeyError)
       \<and> induce_all (tree # trees) rules = Some (Inl KeyError)"
proof -
  have "\<not> mothers_resolve st1"
    using assms(2) by (rule mothers_resolve_bad)
  then have b: "build tree = Inl KeyError"
    using build_closed [OF assms(1)] by simp
  then have i: "induce rules tree = Some (Inl KeyError)"
    by (simp add: induce_def)
  then show ?thesis using b by simp
qed

lemma read_tree_orphan:
  "for_each read_record tree_orphan \<lparr>leaves = [], nodes = []\<rparr> =
     Inr \<lparr>leaves = [\<lparr>node_id = ''a'', label = ''A'', mother = ''500'', strID = [], daughters = []\<rparr>,
                    \<lparr>node_id = ''b'', label = ''B'', mother = ''502'', strID = [], daughters = []\<rparr>],
          nodes = [(''500'', \<lparr>node_id = ''#500'', label = ''S'', mother = ''0'', strID = [], daughters = []\<rparr>)]\<rparr>"
  by code_simp

theorem unresolved_mother_raises_witness:
  "induce [] tree_orphan = Some (Inl KeyError)
   \<and> induce_all [tree_orphan, tree_gap] [] = Some (Inl KeyError)"
proof -
  let ?st1 = "\<lparr>leaves = [\<lparr>node_id = ''a'', label = ''A'', mother = ''500'', strID = [], daughters = []\<rparr>,
                    \<lparr>node_id = ''b'', label = ''B'', mother = ''502'', strID = [], daughters = []\<rparr>],
          nodes = [(''500'', \<lparr>node_id = ''#500'', label = ''S'', mother = ''0'', strID = [], daughters = []\<rparr>)]\<rparr>"
  have bad: "\<exists>nd \<in> set (leaves ?st1) \<union> snd ` set (nodes ?st1).
           mother nd \<noteq> ''0'' \<and> mother nd \<notin> fst ` set (nodes ?st1)"
    by simp
  from unresolved_mother_raises [OF read_tree_orphan bad, of "[]" "[tree_gap]"]
  show ?thesis by simp
qed

text \<open>
  The corpus-level loop does not go on after a tree with an unresolved mother id: the
  rules of the well-formed tree that follows are never induced.
\<close>

theorem corpus_loop_counterexample:
  "Grammar_init [tree_orphan, tree_gap] = Some (Inl KeyError)
   \<and> forms_of (Grammar_init [tree_gap]) =
       Some (Inr [''A(a)->eps'', ''B(b)->eps'', ''C(c)->eps'', ''NP(X_0,X_1)->A(X_0)C(X_1)'',
                  ''S(X_1X_0X_2)->B(X_0)NP(X_1,X_2)''])"
  by code_simp

section \<open>The linked tree\<close>

lemma filter_keys_by_value:
  assumes "distinct (map fst al)"
  shows "map fst (filter (\<lambda>p. P (snd p)) al) = filter (\<lambda>k. P (the (map_of al k))) (map fst al)"
proof -
  have "filter (\<lambda>k. P (the (map_of al k))) (map fst al)
          = map fst (filter ((\<lambda>k. P (the (map_of al k))) \<circ> fst) al)"
    by (rule filter_map)
  also have "filter ((\<lambda>k. P (the (map_of al k))) \<circ> fst) al = filter (\<lambda>p. P (snd p)) al"
  proof (rule filter_cong [OF refl])
    fix p assume "p \<in> set al"
    then have "(fst p, snd p) \<in> set al" by simp
    with assms have "map_of al (fst p) = Some (snd p)"
      by (rule map_of_distinct_in)
    then show "((\<lambda>k. P (the (map_of al k))) \<circ> fst) p = P (snd p)" by simp
  qed
  finally show ?thesis by simp
qed

lemma build_linked:
  assumes "build tree = Inr st"
  shows "linked st"
proof -
  from assms obtain st1 where r: "for_each read_record tree \<lparr>leaves = [], nodes = []\<rparr> = Inr st1"
    by (cases "for_each read_record tree \<lparr>leaves = [], nodes = []\<rparr>") (simp_all add: build_def)
  let ?n = "length (leaves st1)"
  let ?N = "length (nodes st1)"
  let ?st2 = "leaves_linked ?n st1"
  have ok1: "read_ok st1" using r by (rule read_records_ok)
  have mr: "mothers_resolve st1" and st: "st = nodes_linked ?N ?st2"
    using assms build_closed [OF r] by (simp_all split: if_splits)
  have d1: "distinct (map fst (nodes st1))" using ok1 by (simp add: read_ok_def)
  have keys2: "map fst (nodes ?st2) = map fst (nodes st1)" by (rule keys_leaves_linked)
  have keys: "map fst (nodes st) = map fst (nodes st1)"
    unfolding st keys_nodes_linked by (rule keys2)
  have keyset: "fst ` set (nodes st) = fst ` set (nodes st1)"
    using keys by (metis set_map)
  have d: "distinct (map fst (nodes st))" unfolding keys by (rule d1)
  have lv: "leaves st = map (\<lambda>s. (leaves st1 ! s)\<lparr>strID := [int s]\<rparr>) [0..<?n]"
    unfolding st nodes_linked_leaves by (rule leaves_linked_all)
  have len: "length (leaves st) = ?n" unfolding lv by simp
  have lf: "leaves st ! s = (leaves st1 ! s)\<lparr>strID := [int s]\<rparr>" if "s < ?n" for s
    unfolding lv using that by simp
  let ?LD = "\<lambda>k. map Leaf (filter (\<lambda>s. mother (leaves st1 ! s) = k) [0..<?n])"
  let ?ID = "\<lambda>k. map (\<lambda>p. Inner (fst p))
      (filter (\<lambda>p. mother (snd p) \<noteq> ''0'' \<and> mother (snd p) = k) (nodes ?st2))"
  let ?F2 = "\<lambda>(k, nd). (k, nd\<lparr>daughters := daughters nd @ ?LD k\<rparr>)"
  let ?F3 = "\<lambda>(k, nd). (k, nd\<lparr>daughters := daughters nd @ ?ID k\<rparr>)"
  have n2: "nodes ?st2 = map ?F2 (nodes st1)" by (rule nodes_leaves_linked)
  have len2: "length (nodes ?st2) = ?N" unfolding n2 by simp
  have "nodes st = map (\<lambda>(k, nd). (k, nd\<lparr>daughters := daughters nd @
      map (\<lambda>p. Inner (fst p))
        (filter (\<lambda>p. mother (snd p) \<noteq> ''0'' \<and> mother (snd p) = k) (take ?N (nodes ?st2)))\<rparr>)) (nodes ?st2)"
    unfolding st by (rule nodes_nodes_linked)
  then have n3: "nodes st = map ?F3 (nodes ?st2)"
    using len2 by simp
  have LD: "?LD k = leaf_daughters st k" for k
  proof -
    have "filter (\<lambda>s. mother (leaves st1 ! s) = k) [0..<?n]
            = filter (\<lambda>s. mother (leaves st ! s) = k) [0..<?n]"
      by (rule filter_cong [OF refl]) (simp add: lf)
    then show ?thesis by (simp add: leaf_daughters_def len)
  qed
  have moth3: "mother (the (map_of (nodes st) k')) = mother (the (map_of (nodes ?st2) k'))" for k'
    unfolding n3 map_of_map_val by (cases "map_of (nodes ?st2) k'") simp_all
  have d2: "distinct (map fst (nodes ?st2))" unfolding keys2 by (rule d1)
  have ID: "?ID k = inner_daughters st k" for k
  proof -
    let ?Q = "\<lambda>nd. mother nd \<noteq> ''0'' \<and> mother nd = k"
    have "map fst (filter (\<lambda>p. ?Q (snd p)) (nodes ?st2))
            = filter (\<lambda>k'. ?Q (the (map_of (nodes ?st2) k'))) (map fst (nodes ?st2))"
      using d2 by (rule filter_keys_by_value)
    also have "\<dots> = filter (\<lambda>k'. ?Q (deref st (Inner k'))) (map fst (nodes st))"
      unfolding keys keys2 by (simp add: deref_def moth3)
    finally have "map Inner (map fst (filter (\<lambda>p. ?Q (snd p)) (nodes ?st2))) = inner_daughters st k"
      by (simp add: inner_daughters_def)
    then show ?thesis by (simp add: comp_def)
  qed
  have node: "\<exists>nd1. (k, nd1) \<in> set (nodes st1)
       \<and> nd = nd1\<lparr>daughters := (daughters nd1 @ leaf_daughters st k) @ inner_daughters st k\<rparr>"
    if "(k, nd) \<in> set (nodes st)" for k nd
  proof -
    from that obtain p2 where p2: "p2 \<in> set (nodes ?st2)" "(k, nd) = ?F3 p2"
      unfolding n3 by auto
    then obtain p1 where p1: "p1 \<in> set (nodes st1)" "p2 = ?F2 p1"
      unfolding n2 by auto
    obtain k1 nd1 where kn: "p1 = (k1, nd1)" by (cases p1)
    have "k = k1" "nd = nd1\<lparr>daughters := (daughters nd1 @ ?LD k1) @ ?ID k1\<rparr>"
      using p2(2) p1(2) kn by simp_all
    then show ?thesis using p1(1) kn LD ID by auto
  qed
  have leavesP: "strID (leaves st ! s) = [int s] \<and> mother (leaves st ! s) \<in> fst ` set (nodes st)
           \<and> node_id (leaves st ! s) \<noteq> [] \<and> hd (node_id (leaves st ! s)) \<noteq> CHR ''#''"
    if "s < length (leaves st)" for s
  proof -
    have s: "s < ?n" using that len by simp
    then have "leaves st1 ! s \<in> set (leaves st1)" by simp
    then have "node_id (leaves st1 ! s) \<noteq> [] \<and> hd (node_id (leaves st1 ! s)) \<noteq> CHR ''#''"
      using ok1 by (simp add: read_ok_def)
    moreover have "mother (leaves st1 ! s) \<in> fst ` set (nodes st1)"
      using mr s by (simp add: mothers_resolve_def)
    ultimately show ?thesis
      unfolding lf [OF s] keyset by simp
  qed
  have nodesP: "node_id nd = CHR ''#'' # k \<and> strID nd = []
           \<and> (mother nd = ''0'' \<or> mother nd \<in> fst ` set (nodes st))
           \<and> daughters nd = leaf_daughters st k @ inner_daughters st k"
    if "(k, nd) \<in> set (nodes st)" for k nd
  proof -
    from node [OF that] obtain nd1 where nd1: "(k, nd1) \<in> set (nodes st1)"
      and eq: "nd = nd1\<lparr>daughters := (daughters nd1 @ leaf_daughters st k) @ inner_daughters st k\<rparr>"
      by blast
    have a: "node_id nd1 = CHR ''#'' # k \<and> strID nd1 = [] \<and> daughters nd1 = []"
      using ok1 nd1 by (auto simp: read_ok_def)
    from nd1 obtain i where i: "i < length (nodes st1)" "nodes st1 ! i = (k, nd1)"
      by (auto simp: in_set_conv_nth)
    have "mother (snd (nodes st1 ! i)) = ''0'' \<or> mother (snd (nodes st1 ! i)) \<in> fst ` set (nodes st1)"
      using mr i(1) by (simp add: mothers_resolve_def)
    then have b: "mother nd1 = ''0'' \<or> mother nd1 \<in> fst ` set (nodes st1)"
      using i(2) by simp
    show ?thesis
      unfolding eq keyset using a b by simp
  qed
  show ?thesis
    unfolding linked_def using d leavesP nodesP by blast
qed

section \<open>The order of leaves and internal nodes\<close>

text \<open>
  The id field of a record line, whether it is the id of an internal node, and the order
  in which the elements of a list are seen for the first time (the order of the keys of a
  dictionary filled in that order).
\<close>

definition record_id :: "string \<Rightarrow> string" where
  "record_id line = py_split tab line ! 0"

definition is_internal_id :: "string \<Rightarrow> bool" where
  "is_internal_id i = (case i of [] \<Rightarrow> False | c # _ \<Rightarrow> c = CHR ''#'')"

fun first_seen :: "'a list \<Rightarrow> 'a list \<Rightarrow> 'a list" where
  "first_seen acc [] = acc"
| "first_seen acc (x # xs) = first_seen (if x \<in> set acc then acc else acc @ [x]) xs"

text \<open>Two stores hold the same tree when they differ at most in the \<open>strID\<close> of internal nodes.\<close>

definition erase :: "store \<Rightarrow> (string \<times> node) list" where
  "erase st = map (\<lambda>(k, nd). (k, nd\<lparr>strID := []\<rparr>)) (nodes st)"

definition same_tree :: "store \<Rightarrow> store \<Rightarrow> bool" where
  "same_tree st st' \<longleftrightarrow> leaves st' = leaves st \<and> erase st' = erase st"

lemma read_record_order:
  assumes "read_record line st = Inr st'"
  shows "map node_id (leaves st') = map node_id (leaves st) @ filter (\<lambda>i. \<not> is_internal_id i) [record_id line]
       \<and> map fst (nodes st') = first_seen (map fst (nodes st)) (map tl (filter is_internal_id [record_id line]))"
  using assms
proof (cases rule: read_record_cases)
  case (1 nd key)
  have "record_id line = CHR ''#'' # key"
    using 1(1,2) Node_init_fresh [of "py_split tab line" nd] by (simp add: record_id_def)
  then show ?thesis
    using 1(3) by (simp add: is_internal_id_def update_keys)
next
  case (2 nd)
  have "record_id line = node_id nd"
    using 2(1) Node_init_fresh [of "py_split tab line" nd] by (simp add: record_id_def)
  moreover have "\<not> is_internal_id (node_id nd)"
    using 2(2,3) by (cases "node_id nd") (simp_all add: is_internal_id_def)
  ultimately show ?thesis
    using 2(4) by simp
qed

lemma first_seen_append: "first_seen acc (xs @ ys) = first_seen (first_seen acc xs) ys"
  by (induction xs arbitrary: acc) simp_all

lemma read_records_order:
  assumes "for_each read_record tree st = Inr st'"
  shows "map node_id (leaves st') = map node_id (leaves st) @ filter (\<lambda>i. \<not> is_internal_id i) (map record_id tree)
       \<and> map fst (nodes st') = first_seen (map fst (nodes st)) (map tl (filter is_internal_id (map record_id tree)))"
  using assms
proof (induction tree arbitrary: st)
  case Nil
  then show ?case by simp
next
  case (Cons line tree)
  from Cons.prems obtain mid where mid: "read_record line st = Inr mid"
    and rest: "for_each read_record tree mid = Inr st'"
    by (cases "read_record line st") simp_all
  note a = read_record_order [OF mid] and b = Cons.IH [OF rest]
  have "map node_id (leaves st') = map node_id (leaves st)
          @ filter (\<lambda>i. \<not> is_internal_id i) (map record_id (line # tree))"
    using a b by simp
  moreover have "map fst (nodes st')
      = first_seen (map fst (nodes st)) (map tl (filter is_internal_id (map record_id (line # tree))))"
  proof -
    have "map tl (filter is_internal_id (map record_id (line # tree)))
        = map tl (filter is_internal_id [record_id line]) @ map tl (filter is_internal_id (map record_id tree))"
      by simp
    then show ?thesis
      using a b by (simp only: first_seen_append)
  qed
  ultimately show ?case by simp
qed

lemma build_order:
  assumes "build tree = Inr st"
  shows "map node_id (leaves st) = filter (\<lambda>i. \<not> is_internal_id i) (map record_id tree)
       \<and> map fst (nodes st) = first_seen [] (map tl (filter is_internal_id (map record_id tree)))"
proof -
  from assms obtain st1 where r: "for_each read_record tree \<lparr>leaves = [], nodes = []\<rparr> = Inr st1"
    by (cases "for_each read_record tree \<lparr>leaves = [], nodes = []\<rparr>") (simp_all add: build_def)
  have st: "st = nodes_linked (length (nodes st1)) (leaves_linked (length (leaves st1)) st1)"
    using assms build_closed [OF r] by (simp_all split: if_splits)
  have "map node_id (leaves st) = map node_id (leaves st1)"
    unfolding st nodes_linked_leaves leaves_linked_all
    by (intro nth_equalityI) simp_all
  moreover have "map fst (nodes st) = map fst (nodes st1)"
    unfolding st keys_nodes_linked by (rule keys_leaves_linked)
  ultimately show ?thesis
    using read_records_order [OF r] by simp
qed

lemma erase_set_strID: "erase (set_strID k v st) = erase st"
  unfolding erase_def set_strID_def by (induction "nodes st") auto

lemma same_tree_refl: "same_tree st st"
  by (simp add: same_tree_def)

lemma same_tree_set_strID: "same_tree st st' \<Longrightarrow> same_tree st (set_strID k v st')"
  by (simp add: same_tree_def erase_set_strID) (simp add: set_strID_def)

lemma scan_same_tree: "same_tree st (objs w) \<Longrightarrow> same_tree st (objs (scan i w))"
proof (induction i w rule: scan.induct)
  case (1 i w)
  show ?case
  proof (cases "i < length (nodesval w)")
    case False
    then show ?thesis using "1.prems" by (subst scan.simps) simp
  next
    case True
    let ?k = "nodesval w ! i"
    let ?nd = "deref (objs w) (Inner ?k)"
    show ?thesis
    proof (cases "allDaughtersHaveStrID (objs w) ?nd")
      case ready: True
      let ?w' = "w\<lparr>objs := set_strID ?k (getStrID (objs w) ?nd) (objs w),
                   nodes2 := nodes2 w @ [?k], nodesval := remove1 ?k (nodesval w)\<rparr>"
      have eq: "scan i w = scan (i + 1) ?w'"
        using True ready by (subst scan.simps) (simp add: Let_def)
      have "same_tree st (objs ?w')"
        using "1.prems" by (simp add: same_tree_set_strID)
      then show ?thesis
        unfolding eq by (rule "1.IH"(1) [OF True refl refl ready])
    next
      case notready: False
      have eq: "scan i w = scan (i + 1) w"
        using True notready by (subst scan.simps) (simp add: Let_def)
      show ?thesis
        unfolding eq using "1.prems" by (rule "1.IH"(2) [OF True refl refl notready])
    qed
  qed
qed

lemma passes_same_tree: "same_tree st (objs w) \<Longrightarrow> same_tree st (objs ((scan 0 ^^ n) w))"
  by (induction n) (simp_all add: scan_same_tree)

lemma map_of_erase:
  "map_of (erase st) k = map_option (\<lambda>nd. nd\<lparr>strID := []\<rparr>) (map_of (nodes st) k)"
  unfolding erase_def by (rule map_of_map_val)

lemma keys_erase: "map fst (erase st) = map fst (nodes st)"
  unfolding erase_def by (rule map_fst_map_val)

lemma same_tree_keys: "same_tree st st' \<Longrightarrow> map fst (nodes st') = map fst (nodes st)"
  using keys_erase [of st] keys_erase [of st'] by (simp add: same_tree_def)

lemma same_tree_node:
  assumes "same_tree st st'" and "map_of (nodes st') k = Some nd'"
  shows "\<exists>nd. map_of (nodes st) k = Some nd \<and> nd' = nd\<lparr>strID := strID nd'\<rparr>"
proof -
  have "map_of (erase st') k = map_of (erase st) k"
    using assms(1) by (simp add: same_tree_def)
  then have "Some (nd'\<lparr>strID := []\<rparr>) = map_option (\<lambda>nd. nd\<lparr>strID := []\<rparr>) (map_of (nodes st) k)"
    using assms(2) by (simp add: map_of_erase)
  then obtain nd where nd: "map_of (nodes st) k = Some nd" "nd'\<lparr>strID := []\<rparr> = nd\<lparr>strID := []\<rparr>"
    by (cases "map_of (nodes st) k") auto
  from nd(2) have "nd' = nd\<lparr>strID := strID nd'\<rparr>"
    by (cases nd, cases nd') simp
  with nd(1) show ?thesis by blast
qed

section \<open>The order of the daughters and of the right-hand side\<close>

lemma same_tree_deref:
  assumes "same_tree st st'" and "case d of Leaf s \<Rightarrow> True | Inner k \<Rightarrow> k \<in> fst ` set (nodes st)"
  shows "deref st' d = (deref st d)\<lparr>strID := strID (deref st' d)\<rparr>"
proof (cases d)
  case (Leaf s)
  then show ?thesis using assms(1) by (simp add: deref_def same_tree_def)
next
  case (Inner k)
  then have "k \<in> set (map fst (nodes st'))"
    using assms same_tree_keys [OF assms(1)] by simp
  then obtain nd' where nd': "map_of (nodes st') k = Some nd'"
    by (cases "map_of (nodes st') k") (auto simp: map_of_eq_None_iff)
  from same_tree_node [OF assms(1) nd'] obtain nd where
    "map_of (nodes st) k = Some nd" "nd' = nd\<lparr>strID := strID nd'\<rparr>" by blast
  then show ?thesis using Inner nd' by (simp add: deref_def)
qed

lemma contract_rhs_names: "map name (fst (snd (contract_rhs ps la cnt))) = map name ps"
proof (induction ps arbitrary: la cnt)
  case Nil
  show ?case by simp
next
  case (Cons p ps)
  obtain la' pa' cnt' where 1: "contract_pred (la, args p, cnt) = (la', pa', cnt')"
    by (cases "contract_pred (la, args p, cnt)")
  obtain la'' ps' cnt'' where 2: "contract_rhs ps la' cnt' = (la'', ps', cnt'')"
    by (cases "contract_rhs ps la' cnt'")
  have "map name ps' = map name ps"
    using Cons.IH [of la' cnt'] 2 by simp
  then show ?case by (simp add: 1 2)
qed

lemma Rule_init_rhs:
  assumes "node_id nd = CHR ''#'' # k"
  shows "\<exists>r ps. Rule_init st nd = Inr r \<and> rhs r = Preds ps
           \<and> map name ps = map (\<lambda>d. label (deref st d)) (daughters nd)"
proof -
  let ?r0 = "map (\<lambda>d. \<lparr>name = label (deref st d), args = findArgs (strID (deref st d))\<rparr>) (daughters nd)"
  obtain la ps cnt where c: "contract_rhs ?r0 (findArgs (strID nd)) 0 = (la, ps, cnt)"
    by (cases "contract_rhs ?r0 (findArgs (strID nd)) 0")
  have "map name ps = map name ?r0"
    using contract_rhs_names [of ?r0 "findArgs (strID nd)" 0] c by simp
  then have n: "map name ps = map (\<lambda>d. label (deref st d)) (daughters nd)"
    by (simp add: comp_def)
  let ?l = "\<lparr>name = label nd, args = la\<rparr>"
  have "Rule_init st nd = Inr \<lparr>lhs = ?l, rhs = Preds ps, form = Rule_mkform ?l (Preds ps)\<rparr>"
    using assms c by (simp add: Rule_init_def Let_def)
  then show ?thesis using n by simp
qed

lemma linked_daughter_refs:
  assumes "linked st" and "(k, nd) \<in> set (nodes st)" and "d \<in> set (daughters nd)"
  shows "case d of Leaf s \<Rightarrow> s < length (leaves st) \<and> mother (leaves st ! s) = k
         | Inner k' \<Rightarrow> k' \<in> fst ` set (nodes st) \<and> mother (deref st (Inner k')) = k
                        \<and> mother (deref st (Inner k')) \<noteq> ''0''"
proof -
  have "daughters nd = leaf_daughters st k @ inner_daughters st k"
    using assms(1,2) unfolding linked_def by blast
  then have "d \<in> set (leaf_daughters st k) \<or> d \<in> set (inner_daughters st k)"
    using assms(3) by simp
  then show ?thesis
  proof
    assume "d \<in> set (leaf_daughters st k)"
    then show ?thesis by (auto simp: leaf_daughters_def)
  next
    assume "d \<in> set (inner_daughters st k)"
    then obtain k' where "d = Inner k'" "k' \<in> set (map fst (nodes st))"
      "mother (deref st (Inner k')) \<noteq> ''0''" "mother (deref st (Inner k')) = k"
      unfolding inner_daughters_def by auto
    then show ?thesis by simp
  qed
qed

text \<open>
  C9. When the tree has been built, the daughters list of the internal node with key \<open>k\<close>
  holds first the leaves whose mother id is \<open>k\<close>, in the order of the leaf records of the
  input, then the internal nodes whose mother id is \<open>k\<close> (and not the root sentinel), in
  the order in which their ids are first declared by the records. Span propagation (any
  number \<open>n\<close> of passes of the scan) leaves this list as it is, and the rule built from
  the node has one right-hand-side predicate per daughter, named by the daughter's label,
  in exactly this order.
\<close>

theorem daughters_order:
  assumes "build tree = Inr st" and "(k, nd) \<in> set (nodes st)"
  shows "daughters nd = leaf_daughters st k @ inner_daughters st k
       \<and> map node_id (leaves st) = filter (\<lambda>i. \<not> is_internal_id i) (map record_id tree)
       \<and> map fst (nodes st) = first_seen [] (map tl (filter is_internal_id (map record_id tree)))
       \<and> (\<exists>nd' r ps.
             map_of (nodes (objs ((scan 0 ^^ n) \<lparr>nodesval = map fst (nodes st), nodes2 = [], objs = st\<rparr>))) k
               = Some nd'
             \<and> daughters nd' = daughters nd
             \<and> Rule_init (objs ((scan 0 ^^ n) \<lparr>nodesval = map fst (nodes st), nodes2 = [], objs = st\<rparr>)) nd'
                 = Inr r
             \<and> rhs r = Preds ps
             \<and> map name ps = map (\<lambda>d. label (deref st d)) (daughters nd))"
proof -
  let ?w0 = "\<lparr>nodesval = map fst (nodes st), nodes2 = [], objs = st\<rparr>"
  let ?st' = "objs ((scan 0 ^^ n) ?w0)"
  have l: "linked st" using assms(1) by (rule build_linked)
  then have d: "distinct (map fst (nodes st))" by (simp add: linked_def)
  have dn: "daughters nd = leaf_daughters st k @ inner_daughters st k"
    and id: "node_id nd = CHR ''#'' # k"
    using l assms(2) unfolding linked_def by blast+
  have same: "same_tree st ?st'"
    by (rule passes_same_tree) (simp add: same_tree_refl)
  have look: "map_of (nodes st) k = Some nd"
    using d assms(2) by (rule map_of_distinct_in)
  have "k \<in> set (map fst (nodes ?st'))"
    using assms(2) same_tree_keys [OF same] by force
  then obtain nd' where nd': "map_of (nodes ?st') k = Some nd'"
    by (cases "map_of (nodes ?st') k") (auto simp: map_of_eq_None_iff)
  from same_tree_node [OF same nd'] look have eq: "nd' = nd\<lparr>strID := strID nd'\<rparr>"
    by simp
  then have dd: "daughters nd' = daughters nd" and id': "node_id nd' = CHR ''#'' # k"
    using id by (metis node.select_convs(5) node.surjective node.update_convs(4),
                 metis node.select_convs(1) node.surjective node.update_convs(4))
  from Rule_init_rhs [OF id', of ?st'] obtain r ps where r: "Rule_init ?st' nd' = Inr r"
    "rhs r = Preds ps" "map name ps = map (\<lambda>d. label (deref ?st' d)) (daughters nd')"
    by blast
  have "map (\<lambda>d. label (deref ?st' d)) (daughters nd) = map (\<lambda>d. label (deref st d)) (daughters nd)"
  proof (rule map_cong [OF refl])
    fix d assume "d \<in> set (daughters nd)"
    from linked_daughter_refs [OF l assms(2) this]
    have "case d of Leaf s \<Rightarrow> True | Inner k \<Rightarrow> k \<in> fst ` set (nodes st)"
      by (cases d) simp_all
    from same_tree_deref [OF same this]
    have "deref ?st' d = (deref st d)\<lparr>strID := strID (deref ?st' d)\<rparr>" .
    then have "label (deref ?st' d) = label ((deref st d)\<lparr>strID := strID (deref ?st' d)\<rparr>)"
      by simp
    then show "label (deref ?st' d) = label (deref st d)" by simp
  qed
  with r(3) dd have "map name ps = map (\<lambda>d. label (deref st d)) (daughters nd)" by simp
  with nd' dd r(1,2) have "\<exists>nd' r ps. map_of (nodes ?st') k = Some nd' \<and> daughters nd' = daughters nd
      \<and> Rule_init ?st' nd' = Inr r \<and> rhs r = Preds ps
      \<and> map name ps = map (\<lambda>d. label (deref st d)) (daughters nd)"
    by blast
  with dn build_order [OF assms(1)] show ?thesis by simp
qed

lemma build_tree_gap:
  "build tree_gap =
     Inr \<lparr>leaves = [\<lparr>node_id = ''a'', label = ''A'', mother = ''500'', strID = [0], daughters = []\<rparr>,
                    \<lparr>node_id = ''b'', label = ''B'', mother = ''501'', strID = [1], daughters = []\<rparr>,
                    \<lparr>node_id = ''c'', label = ''C'', mother = ''500'', strID = [2], daughters = []\<rparr>],
          nodes = [(''500'', \<lparr>node_id = ''#500'', label = ''NP'', mother = ''501'', strID = [],
                              daughters = [Leaf 0, Leaf 2]\<rparr>),
                   (''501'', \<lparr>node_id = ''#501'', label = ''S'', mother = ''0'', strID = [],
                              daughters = [Leaf 1, Inner ''500'']\<rparr>)]\<rparr>"
  by code_simp

theorem daughters_order_witness:
  "\<exists>st nd. build tree_gap = Inr st \<and> (''501'', nd) \<in> set (nodes st)
      \<and> daughters nd = [Leaf 1, Inner ''500'']
      \<and> daughters nd = leaf_daughters st ''501'' @ inner_daughters st ''501''
      \<and> map node_id (leaves st) = filter (\<lambda>i. \<not> is_internal_id i) (map record_id tree_gap)
      \<and> map node_id (leaves st) = [''a'', ''b'', ''c'']
      \<and> map fst (nodes st) = [''500'', ''501'']"
proof -
  let ?nd = "\<lparr>node_id = ''#501'', label = ''S'', mother = ''0'', strID = [],
             daughters = [Leaf 1, Inner ''500'']\<rparr>"
  let ?st = "\<lparr>leaves = [\<lparr>node_id = ''a'', label = ''A'', mother = ''500'', strID = [0], daughters = []\<rparr>,
                    \<lparr>node_id = ''b'', label = ''B'', mother = ''501'', strID = [1], daughters = []\<rparr>,
                    \<lparr>node_id = ''c'', label = ''C'', mother = ''500'', strID = [2], daughters = []\<rparr>],
          nodes = [(''500'', \<lparr>node_id = ''#500'', label = ''NP'', mother = ''501'', strID = [],
                              daughters = [Leaf 0, Leaf 2]\<rparr>),
                   (''501'', ?nd)]\<rparr>"
  have mem: "(''501'', ?nd) \<in> set (nodes ?st)" by simp
  note c = daughters_order [OF build_tree_gap mem, of 0]
  have 1: "daughters ?nd = leaf_daughters ?st ''501'' @ inner_daughters ?st ''501''"
    using c by (rule conjunct1)
  have 2: "map node_id (leaves ?st) = filter (\<lambda>i. \<not> is_internal_id i) (map record_id tree_gap)"
    using c by (rule conjunct2 [THEN conjunct1])
  have 3: "daughters ?nd = [Leaf 1, Inner ''500'']" "map node_id (leaves ?st) = [''a'', ''b'', ''c'']"
    "map fst (nodes ?st) = [''500'', ''501'']"
    by simp_all
  show ?thesis
    by (rule exI [of _ ?st], rule exI [of _ ?nd]) (intro conjI build_tree_gap mem 1 2 3)
qed

section \<open>Well-formed trees and the leaves a node dominates\<close>

text \<open>
  The mother relation of a built tree: the pairs (internal node, its mother) along which the
  third loop links, i.e. the mother id is not the root sentinel. A leaf is dominated by
  the node \<open>k\<close> when following the mother ids from the leaf reaches \<open>k\<close>.
\<close>

definition mother_rel :: "store \<Rightarrow> (string \<times> string) set" where
  "mother_rel st =
     {(k', k). k' \<in> fst ` set (nodes st) \<and> mother (deref st (Inner k')) = k
               \<and> mother (deref st (Inner k')) \<noteq> ''0''}"

definition dominated_leaves :: "store \<Rightarrow> string \<Rightarrow> nat set" where
  "dominated_leaves st k =
     {s. s < length (leaves st) \<and> (mother (leaves st ! s), k) \<in> (mother_rel st)\<^sup>*}"

text \<open>The ascending, duplicate-free list of the positions of the leaves a node dominates.\<close>

definition leaf_span :: "store \<Rightarrow> string \<Rightarrow> int list" where
  "leaf_span st k = sorted_list_of_set (int ` dominated_leaves st k)"

text \<open>
  A built tree (every mother id resolved) is well formed when the mother relation is acyclic
  and every internal node dominates at least one leaf.
\<close>

definition well_formed :: "store \<Rightarrow> bool" where
  "well_formed st \<longleftrightarrow>
     acyclic (mother_rel st) \<and> (\<forall>k \<in> fst ` set (nodes st). dominated_leaves st k \<noteq> {})"

definition ref_leaves :: "store \<Rightarrow> ref \<Rightarrow> nat set" where
  "ref_leaves st d = (case d of Leaf s \<Rightarrow> {s} | Inner k \<Rightarrow> dominated_leaves st k)"

lemma single_valued_mother_rel: "single_valued (mother_rel st)"
  by (auto simp: single_valued_def mother_rel_def)

lemma finite_mother_rel: "finite (mother_rel st)"
proof -
  have "mother_rel st \<subseteq> (\<lambda>k'. (k', mother (deref st (Inner k')))) ` (fst ` set (nodes st))"
    by (auto simp: mother_rel_def)
  then show ?thesis by (rule finite_subset) simp
qed

lemma finite_dominated_leaves: "finite (dominated_leaves st k)"
  by (simp add: dominated_leaves_def)

lemma dominated_leaves_unfold:
  "dominated_leaves st k =
     {s. s < length (leaves st) \<and> mother (leaves st ! s) = k}
     \<union> (\<Union>k' \<in> {k'. (k', k) \<in> mother_rel st}. dominated_leaves st k')"
proof -
  have "((m, k) \<in> (mother_rel st)\<^sup>*) = (m = k \<or> (\<exists>k'. (m, k') \<in> (mother_rel st)\<^sup>* \<and> (k', k) \<in> mother_rel st))"
    for m
    by (metis rtrancl.cases rtrancl.rtrancl_into_rtrancl rtrancl.rtrancl_refl)
  then show ?thesis
    unfolding dominated_leaves_def by blast
qed

lemma daughters_set:
  assumes "linked st" and "(k, nd) \<in> set (nodes st)"
  shows "set (daughters nd) =
           Leaf ` {s. s < length (leaves st) \<and> mother (leaves st ! s) = k}
           \<union> Inner ` {k'. (k', k) \<in> mother_rel st}"
proof -
  have "daughters nd = leaf_daughters st k @ inner_daughters st k"
    using assms unfolding linked_def by blast
  moreover have "set (leaf_daughters st k) = Leaf ` {s. s < length (leaves st) \<and> mother (leaves st ! s) = k}"
    by (auto simp: leaf_daughters_def)
  moreover have "set (inner_daughters st k) = Inner ` {k'. (k', k) \<in> mother_rel st}"
    by (auto simp: inner_daughters_def mother_rel_def)
  ultimately show ?thesis by simp
qed

lemma daughters_distinct:
  assumes "linked st" and "(k, nd) \<in> set (nodes st)"
  shows "distinct (daughters nd)"
proof -
  have dn: "daughters nd = leaf_daughters st k @ inner_daughters st k"
    and d: "distinct (map fst (nodes st))"
    using assms unfolding linked_def by blast+
  have "distinct (leaf_daughters st k)"
    by (simp add: leaf_daughters_def distinct_map inj_on_def)
  moreover have "distinct (inner_daughters st k)"
    using d by (simp add: inner_daughters_def distinct_map inj_on_def)
  moreover have "set (leaf_daughters st k) \<inter> set (inner_daughters st k) = {}"
    by (auto simp: leaf_daughters_def inner_daughters_def)
  ultimately show ?thesis by (simp add: dn)
qed

lemma dominated_leaves_daughters:
  assumes "linked st" and "(k, nd) \<in> set (nodes st)"
  shows "dominated_leaves st k = (\<Union>d \<in> set (daughters nd). ref_leaves st d)"
proof -
  have "(\<Union>d \<in> set (daughters nd). ref_leaves st d)
      = (\<Union>d \<in> Leaf ` {s. s < length (leaves st) \<and> mother (leaves st ! s) = k}. ref_leaves st d)
        \<union> (\<Union>d \<in> Inner ` {k'. (k', k) \<in> mother_rel st}. ref_leaves st d)"
    unfolding daughters_set [OF assms] by (rule UN_Un)
  also have "\<dots> = {s. s < length (leaves st) \<and> mother (leaves st ! s) = k}
       \<union> (\<Union>k' \<in> {k'. (k', k) \<in> mother_rel st}. dominated_leaves st k')"
    by (auto simp: ref_leaves_def)
  finally show ?thesis
    using dominated_leaves_unfold [of st k] by simp
qed

lemma sibling_spans_disjoint:
  assumes l: "linked st" and a: "acyclic (mother_rel st)" and nd: "(k, nd) \<in> set (nodes st)"
    and d1: "d1 \<in> set (daughters nd)" and d2: "d2 \<in> set (daughters nd)" and ne: "d1 \<noteq> d2"
  shows "ref_leaves st d1 \<inter> ref_leaves st d2 = {}"
proof -
  let ?R = "mother_rel st"
  have leaf_inner: False
    if "Leaf s \<in> set (daughters nd)" "Inner k' \<in> set (daughters nd)" "s \<in> dominated_leaves st k'"
    for s k'
  proof -
    have m: "mother (leaves st ! s) = k" and e: "(k', k) \<in> ?R"
      using that(1,2) unfolding daughters_set [OF l nd] by auto
    have "(k, k') \<in> ?R\<^sup>*"
      using that(3) m by (simp add: dominated_leaves_def)
    with e have "(k', k') \<in> ?R\<^sup>+" by (rule rtrancl_into_trancl2)
    with a show False by (simp add: acyclic_def)
  qed
  have inner_inner: False
    if "Inner k1 \<in> set (daughters nd)" "Inner k2 \<in> set (daughters nd)" "k1 \<noteq> k2"
      "(k1, k2) \<in> ?R\<^sup>*"
    for k1 k2
  proof -
    have e1: "(k1, k) \<in> ?R" and e2: "(k2, k) \<in> ?R"
      using that(1,2) unfolding daughters_set [OF l nd] by auto
    from that(3,4) have "(k1, k2) \<in> ?R\<^sup>+" by (simp add: rtrancl_eq_or_trancl)
    then obtain x where x: "(k1, x) \<in> ?R" "(x, k2) \<in> ?R\<^sup>*"
      by (rule tranclD [elim_format]) blast
    have "x = k"
      using single_valued_mother_rel [of st] x(1) e1 by (auto simp: single_valued_def)
    with x(2) e2 have "(k2, k2) \<in> ?R\<^sup>+" by (simp add: rtrancl_into_trancl2)
    with a show False by (simp add: acyclic_def)
  qed
  show ?thesis
  proof (rule ccontr)
    assume "ref_leaves st d1 \<inter> ref_leaves st d2 \<noteq> {}"
    then obtain s where s: "s \<in> ref_leaves st d1" "s \<in> ref_leaves st d2" by blast
    show False
    proof (cases d1)
      case L1: (Leaf s1)
      show ?thesis
      proof (cases d2)
        case (Leaf s2)
        then show ?thesis using L1 s ne by (simp add: ref_leaves_def)
      next
        case (Inner k2)
        then show ?thesis using L1 s d1 d2 leaf_inner [of s1 k2] by (simp add: ref_leaves_def)
      qed
    next
      case I1: (Inner k1)
      show ?thesis
      proof (cases d2)
        case (Leaf s2)
        then show ?thesis using I1 s d1 d2 leaf_inner [of s2 k1] by (simp add: ref_leaves_def)
      next
        case (Inner k2)
        have "(mother (leaves st ! s), k1) \<in> ?R\<^sup>*" "(mother (leaves st ! s), k2) \<in> ?R\<^sup>*"
          using s I1 Inner by (simp_all add: ref_leaves_def dominated_leaves_def)
        then have "(k1, k2) \<in> ?R\<^sup>* \<or> (k2, k1) \<in> ?R\<^sup>*"
          by (rule single_valued_confluent [OF single_valued_mother_rel])
        then show ?thesis
          using inner_inner [of k1 k2] inner_inner [of k2 k1] d1 d2 ne I1 Inner by auto
      qed
    qed
  qed
qed

section \<open>Span propagation on a well-formed tree\<close>

text \<open>The span a daughter reference stands for: a leaf its own position, an internal node its leaf span.\<close>

definition ref_span :: "store \<Rightarrow> ref \<Rightarrow> int list" where
  "ref_span st d = sorted_list_of_set (int ` ref_leaves st d)"

lemma finite_ref_leaves: "finite (ref_leaves st d)"
  by (cases d) (simp_all add: ref_leaves_def finite_dominated_leaves)

lemma distinct_concat_map:
  assumes "distinct ds" and "\<And>d. d \<in> set ds \<Longrightarrow> distinct (f d)"
    and "\<And>d1 d2. d1 \<in> set ds \<Longrightarrow> d2 \<in> set ds \<Longrightarrow> d1 \<noteq> d2 \<Longrightarrow> set (f d1) \<inter> set (f d2) = {}"
  shows "distinct (concat (map f ds))"
  using assms
proof (induction ds)
  case Nil
  show ?case by simp
next
  case (Cons d ds)
  have "distinct (concat (map f ds))"
    using Cons.prems by (intro Cons.IH) auto
  moreover have "set (f d) \<inter> set (f d') = {}" if "d' \<in> set ds" for d'
    using Cons.prems(1) Cons.prems(3) [of d d'] that by auto
  ultimately show ?case
    using Cons.prems(2) [of d] by auto
qed

lemma leaf_span_daughters:
  assumes l: "linked st" and a: "acyclic (mother_rel st)" and nd: "(k, nd) \<in> set (nodes st)"
  shows "leaf_span st k = sort (concat (map (ref_span st) (daughters nd)))"
proof -
  let ?xs = "concat (map (ref_span st) (daughters nd))"
  have set_span: "set (ref_span st d) = int ` ref_leaves st d" for d
    by (simp add: ref_span_def finite_ref_leaves)
  have "distinct ?xs"
  proof (rule distinct_concat_map)
    show "distinct (daughters nd)" using l nd by (rule daughters_distinct)
  next
    fix d show "distinct (ref_span st d)" by (simp add: ref_span_def)
  next
    fix d1 d2 assume "d1 \<in> set (daughters nd)" "d2 \<in> set (daughters nd)" "d1 \<noteq> d2"
    then have "ref_leaves st d1 \<inter> ref_leaves st d2 = {}"
      by (rule sibling_spans_disjoint [OF l a nd])
    then show "set (ref_span st d1) \<inter> set (ref_span st d2) = {}"
      unfolding set_span by auto
  qed
  then have "remdups ?xs = ?xs" by (rule distinct_remdups_id)
  moreover have "sorted_list_of_set (set ?xs) = sort (remdups ?xs)"
    by (rule sorted_list_of_set_sort_remdups)
  ultimately have "sort ?xs = sorted_list_of_set (set ?xs)"
    by (simp only:)
  moreover have "set ?xs = int ` dominated_leaves st k"
    unfolding dominated_leaves_daughters [OF l nd] by (auto simp: set_span)
  ultimately show ?thesis by (simp add: leaf_span_def)
qed

lemma ref_span_nonempty:
  assumes "linked st" and "well_formed st" and "(k, nd) \<in> set (nodes st)" and "d \<in> set (daughters nd)"
  shows "ref_span st d \<noteq> []"
proof (cases d)
  case (Leaf s)
  then show ?thesis by (simp add: ref_span_def ref_leaves_def)
next
  case (Inner k')
  have "k' \<in> fst ` set (nodes st)"
    using linked_daughter_refs [OF assms(1,3,4)] Inner by simp
  then have "dominated_leaves st k' \<noteq> {}"
    using assms(2) unfolding well_formed_def by blast
  then have "set (ref_span st d) \<noteq> {}"
    using Inner by (simp add: ref_span_def ref_leaves_def finite_dominated_leaves)
  then show ?thesis by auto
qed

text \<open>What the scan keeps true, relative to the tree \<open>st\<close> that was built.\<close>

definition resolved_inv :: "store \<Rightarrow> worklist \<Rightarrow> bool" where
  "resolved_inv st w \<longleftrightarrow>
     same_tree st (objs w) \<and> distinct (nodesval w) \<and> set (nodesval w) \<subseteq> fst ` set (nodes st)
     \<and> (\<forall>k nd. map_of (nodes (objs w)) k = Some nd \<longrightarrow>
           strID nd = (if k \<in> set (nodesval w) then [] else leaf_span st k))"

lemma inv_lookup:
  assumes "same_tree st st'" and "k \<in> fst ` set (nodes st)"
  obtains nd nd' where "(k, nd) \<in> set (nodes st)" "map_of (nodes st') k = Some nd'"
    "nd' = nd\<lparr>strID := strID nd'\<rparr>" "deref st' (Inner k) = nd'"
proof -
  have "k \<in> set (map fst (nodes st'))"
    using assms same_tree_keys [OF assms(1)] by simp
  then obtain nd' where nd': "map_of (nodes st') k = Some nd'"
    by (cases "map_of (nodes st') k") (auto simp: map_of_eq_None_iff)
  from same_tree_node [OF assms(1) nd'] obtain nd where
    nd: "map_of (nodes st) k = Some nd" "nd' = nd\<lparr>strID := strID nd'\<rparr>" by blast
  have "(k, nd) \<in> set (nodes st)" using nd(1) by (rule map_of_SomeD)
  moreover have "deref st' (Inner k) = nd'" using nd' by (simp add: deref_def)
  ultimately show ?thesis using nd' nd(2) that by blast
qed

lemma daughter_strID:
  assumes l: "linked st" and inv: "resolved_inv st w" and nd: "(k, nd) \<in> set (nodes st)"
    and d: "d \<in> set (daughters nd)" and ne: "strID (deref (objs w) d) \<noteq> []"
  shows "strID (deref (objs w) d) = ref_span st d"
proof (cases d)
  case (Leaf s)
  have s: "s < length (leaves st)"
    using linked_daughter_refs [OF l nd d] Leaf by simp
  have "leaves (objs w) = leaves st"
    using inv by (simp add: resolved_inv_def same_tree_def)
  then have "strID (deref (objs w) d) = [int s]"
    using l s Leaf by (simp add: deref_def linked_def)
  then show ?thesis using Leaf by (simp add: ref_span_def ref_leaves_def)
next
  case (Inner k')
  have k': "k' \<in> fst ` set (nodes st)"
    using linked_daughter_refs [OF l nd d] Inner by simp
  have same: "same_tree st (objs w)" using inv by (simp add: resolved_inv_def)
  from inv_lookup [OF same k'] obtain n1 n1' where
    n1: "map_of (nodes (objs w)) k' = Some n1'" "deref (objs w) (Inner k') = n1'"
    by metis
  have "strID n1' = (if k' \<in> set (nodesval w) then [] else leaf_span st k')"
    using inv n1(1) unfolding resolved_inv_def by blast
  then have "strID n1' = leaf_span st k'"
    using ne Inner n1(2) by (simp split: if_splits)
  then show ?thesis
    using Inner n1(2) by (simp add: ref_span_def ref_leaves_def leaf_span_def)
qed

lemma getStrID_leaf_span:
  assumes l: "linked st" and a: "acyclic (mother_rel st)" and inv: "resolved_inv st w"
    and k: "k \<in> fst ` set (nodes st)"
    and ready: "allDaughtersHaveStrID (objs w) (deref (objs w) (Inner k))"
  shows "getStrID (objs w) (deref (objs w) (Inner k)) = leaf_span st k"
proof -
  have same: "same_tree st (objs w)" using inv by (simp add: resolved_inv_def)
  from inv_lookup [OF same k] obtain nd nd' where
    nd: "(k, nd) \<in> set (nodes st)" and eq: "nd' = nd\<lparr>strID := strID nd'\<rparr>"
    and de: "deref (objs w) (Inner k) = nd'"
    by metis
  have dd: "daughters nd' = daughters nd"
    by (subst eq) simp
  have each: "strID (deref (objs w) d) = ref_span st d" if "d \<in> set (daughters nd)" for d
  proof -
    have "strID (deref (objs w) d) \<noteq> []"
      using ready that unfolding de allDaughtersHaveStrID_def dd by (simp add: list_all_iff)
    with l inv nd that show ?thesis by (rule daughter_strID)
  qed
  have m: "map (\<lambda>d. strID (deref (objs w) d)) (daughters nd) = map (ref_span st) (daughters nd)"
    by (rule map_cong [OF refl]) (rule each)
  have ls: "leaf_span st k = sort (concat (map (ref_span st) (daughters nd)))"
    using l a nd by (rule leaf_span_daughters)
  show ?thesis
  proof (cases "length (daughters nd) = 1")
    case True
    then obtain d where d: "daughters nd = [d]"
      by (cases "daughters nd") simp_all
    have "sorted (ref_span st d)" by (simp add: ref_span_def)
    then have "leaf_span st k = ref_span st d"
      using ls d by (simp add: sort_key_id_if_sorted)
    moreover have "getStrID (objs w) nd' = strID (deref (objs w) d)"
      using d dd by (simp add: getStrID_def)
    ultimately show ?thesis
      unfolding de using each [of d] d by simp
  next
    case False
    then have "getStrID (objs w) nd' = sort (concat (map (\<lambda>d. strID (deref (objs w) d)) (daughters nd)))"
      using dd by (simp add: getStrID_def)
    then show ?thesis unfolding de m ls .
  qed
qed

lemma map_of_set_strID:
  "map_of (nodes (set_strID k v st)) k'
     = map_option (\<lambda>nd. if k' = k then nd\<lparr>strID := v\<rparr> else nd) (map_of (nodes st) k')"
proof -
  have "map_of (map (\<lambda>(k', nd). if k' = k then (k', nd\<lparr>strID := v\<rparr>) else (k', nd)) al) k'
     = map_option (\<lambda>nd. if k' = k then nd\<lparr>strID := v\<rparr> else nd) (map_of al k')" for al
    by (induction al) auto
  then show ?thesis by (simp add: set_strID_def)
qed

lemma resolve_inv:
  assumes l: "linked st" and a: "acyclic (mother_rel st)" and inv: "resolved_inv st w"
    and k: "k \<in> set (nodesval w)"
    and ready: "allDaughtersHaveStrID (objs w) (deref (objs w) (Inner k))"
  shows "resolved_inv st
           (w\<lparr>objs := set_strID k (getStrID (objs w) (deref (objs w) (Inner k))) (objs w),
              nodes2 := nodes2 w @ [k], nodesval := remove1 k (nodesval w)\<rparr>)"
proof -
  let ?v = "getStrID (objs w) (deref (objs w) (Inner k))"
  have same: "same_tree st (objs w)" and dist: "distinct (nodesval w)"
    and sub: "set (nodesval w) \<subseteq> fst ` set (nodes st)"
    and ids: "\<And>k nd. map_of (nodes (objs w)) k = Some nd \<Longrightarrow>
           strID nd = (if k \<in> set (nodesval w) then [] else leaf_span st k)"
    using inv unfolding resolved_inv_def by blast+
  have kk: "k \<in> fst ` set (nodes st)" using k sub by blast
  have v: "?v = leaf_span st k"
    using l a inv kk ready by (rule getStrID_leaf_span)
  have "strID nd = (if k' \<in> set (remove1 k (nodesval w)) then [] else leaf_span st k')"
    if "map_of (nodes (set_strID k ?v (objs w))) k' = Some nd" for k' nd
  proof -
    from that obtain nd0 where nd0: "map_of (nodes (objs w)) k' = Some nd0"
      and nd: "nd = (if k' = k then nd0\<lparr>strID := ?v\<rparr> else nd0)"
      unfolding map_of_set_strID by (cases "map_of (nodes (objs w)) k'") auto
    show ?thesis
    proof (cases "k' = k")
      case True
      then show ?thesis using nd v dist by simp
    next
      case False
      then have "(k' \<in> set (remove1 k (nodesval w))) = (k' \<in> set (nodesval w))"
        by simp
      then show ?thesis using False nd ids [OF nd0] by simp
    qed
  qed
  moreover have "same_tree st (set_strID k ?v (objs w))"
    using same by (rule same_tree_set_strID)
  moreover have "distinct (remove1 k (nodesval w))" using dist by simp
  moreover have "set (remove1 k (nodesval w)) \<subseteq> fst ` set (nodes st)"
    using sub set_remove1_subset [of k "nodesval w"] by blast
  ultimately show ?thesis
    unfolding resolved_inv_def by simp
qed

lemma scan_inv:
  assumes l: "linked st" and a: "acyclic (mother_rel st)"
  shows "resolved_inv st w \<Longrightarrow> resolved_inv st (scan i w)"
proof (induction i w rule: scan.induct)
  case (1 i w)
  show ?case
  proof (cases "i < length (nodesval w)")
    case False
    then show ?thesis using "1.prems" by (subst scan.simps) simp
  next
    case True
    let ?k = "nodesval w ! i"
    let ?nd = "deref (objs w) (Inner ?k)"
    show ?thesis
    proof (cases "allDaughtersHaveStrID (objs w) ?nd")
      case ready: True
      let ?w' = "w\<lparr>objs := set_strID ?k (getStrID (objs w) ?nd) (objs w),
                   nodes2 := nodes2 w @ [?k], nodesval := remove1 ?k (nodesval w)\<rparr>"
      have eq: "scan i w = scan (i + 1) ?w'"
        using True ready by (subst scan.simps) (simp add: Let_def)
      have "?k \<in> set (nodesval w)" using True by simp
      with l a "1.prems" have "resolved_inv st ?w'"
        using ready by (rule resolve_inv)
      then show ?thesis
        unfolding eq by (rule "1.IH"(1) [OF True refl refl ready])
    next
      case notready: False
      have eq: "scan i w = scan (i + 1) w"
        using True notready by (subst scan.simps) (simp add: Let_def)
      show ?thesis
        unfolding eq using "1.prems" by (rule "1.IH"(2) [OF True refl refl notready])
    qed
  qed
qed

lemma scan_progress:
  "i \<le> j \<Longrightarrow> j < length (nodesval w) \<Longrightarrow>
   allDaughtersHaveStrID (objs w) (deref (objs w) (Inner (nodesval w ! j))) \<Longrightarrow>
   length (nodesval (scan i w)) < length (nodesval w)"
proof (induction i w rule: scan.induct)
  case (1 i w)
  have True: "i < length (nodesval w)" using "1.prems" by simp
  let ?k = "nodesval w ! i"
  let ?nd = "deref (objs w) (Inner ?k)"
  show ?case
  proof (cases "allDaughtersHaveStrID (objs w) ?nd")
    case ready: True
    let ?w' = "w\<lparr>objs := set_strID ?k (getStrID (objs w) ?nd) (objs w),
                 nodes2 := nodes2 w @ [?k], nodesval := remove1 ?k (nodesval w)\<rparr>"
    have eq: "scan i w = scan (i + 1) ?w'"
      using True ready by (subst scan.simps) (simp add: Let_def)
    have "length (nodesval (scan (i + 1) ?w')) \<le> length (nodesval ?w')"
      by (rule scan_length)
    moreover have "length (nodesval ?w') < length (nodesval w)"
      using True by (simp add: length_remove1)
    ultimately show ?thesis unfolding eq by simp
  next
    case notready: False
    have eq: "scan i w = scan (i + 1) w"
      using True notready by (subst scan.simps) (simp add: Let_def)
    have "i \<noteq> j" using notready "1.prems"(3) by auto
    then have "i + 1 \<le> j" using "1.prems"(1) by simp
    then show ?thesis
      unfolding eq using "1.prems"(2,3) by (rule "1.IH"(2) [OF True refl refl notready])
  qed
qed

lemma exists_ready:
  assumes l: "linked st" and wf: "well_formed st" and inv: "resolved_inv st w"
    and ne: "nodesval w \<noteq> []"
  shows "\<exists>j<length (nodesval w).
           allDaughtersHaveStrID (objs w) (deref (objs w) (Inner (nodesval w ! j)))"
proof -
  let ?R = "mother_rel st"
  have same: "same_tree st (objs w)"
    and sub: "set (nodesval w) \<subseteq> fst ` set (nodes st)"
    and ids: "\<And>k nd. map_of (nodes (objs w)) k = Some nd \<Longrightarrow>
           strID nd = (if k \<in> set (nodesval w) then [] else leaf_span st k)"
    using inv unfolding resolved_inv_def by blast+
  have "wf ?R"
    using finite_mother_rel wf by (intro finite_acyclic_wf) (simp_all add: well_formed_def)
  moreover have "hd (nodesval w) \<in> set (nodesval w)" using ne by simp
  ultimately obtain z where z: "z \<in> set (nodesval w)"
    and min: "\<And>y. (y, z) \<in> ?R \<Longrightarrow> y \<notin> set (nodesval w)"
    by (rule wfE_min) blast
  have zk: "z \<in> fst ` set (nodes st)" using z sub by blast
  from inv_lookup [OF same zk] obtain nd nd' where
    nd: "(z, nd) \<in> set (nodes st)" and eq: "nd' = nd\<lparr>strID := strID nd'\<rparr>"
    and de: "deref (objs w) (Inner z) = nd'"
    by metis
  have dd: "daughters nd' = daughters nd" by (subst eq) simp
  have "strID (deref (objs w) d) \<noteq> []" if d: "d \<in> set (daughters nd)" for d
  proof (cases d)
    case (Leaf s)
    have s: "s < length (leaves st)"
      using linked_daughter_refs [OF l nd d] Leaf by simp
    have "leaves (objs w) = leaves st" using same by (simp add: same_tree_def)
    then have "strID (deref (objs w) d) = [int s]"
      using l s Leaf by (simp add: deref_def linked_def)
    then show ?thesis by simp
  next
    case (Inner k')
    have k': "k' \<in> fst ` set (nodes st)"
      using linked_daughter_refs [OF l nd d] Inner by simp
    have "(k', z) \<in> ?R"
      using d Inner unfolding daughters_set [OF l nd] by auto
    then have notin: "k' \<notin> set (nodesval w)" by (rule min)
    from inv_lookup [OF same k'] obtain n1 n1' where
      n1: "map_of (nodes (objs w)) k' = Some n1'" "deref (objs w) (Inner k') = n1'"
      by metis
    have "strID n1' = leaf_span st k'"
      using ids [OF n1(1)] notin by simp
    moreover have "dominated_leaves st k' \<noteq> {}"
      using wf k' unfolding well_formed_def by blast
    then have "set (leaf_span st k') \<noteq> {}"
      by (simp add: leaf_span_def finite_dominated_leaves)
    ultimately show ?thesis using Inner n1(2) by auto
  qed
  then have "allDaughtersHaveStrID (objs w) (deref (objs w) (Inner z))"
    unfolding de allDaughtersHaveStrID_def dd by (simp add: list_all_iff)
  moreover from z obtain j where "j < length (nodesval w)" "nodesval w ! j = z"
    by (auto simp: in_set_conv_nth)
  ultimately show ?thesis by auto
qed

lemma propagate_resolves:
  assumes l: "linked st" and wf: "well_formed st"
  shows "resolved_inv st w \<Longrightarrow>
         \<exists>w'. propagate w = Some w' \<and> resolved_inv st w' \<and> nodesval w' = []"
proof (induction "length (nodesval w)" arbitrary: w rule: less_induct)
  case less
  show ?case
  proof (cases "nodesval w = []")
    case True
    then have "propagate w = Some w" by (subst propagate.simps) simp
    with less.prems True show ?thesis by simp
  next
    case False
    from exists_ready [OF l wf less.prems False] obtain j where
      j: "j < length (nodesval w)"
      "allDaughtersHaveStrID (objs w) (deref (objs w) (Inner (nodesval w ! j)))"
      by blast
    have lt: "length (nodesval (scan 0 w)) < length (nodesval w)"
      using j by (intro scan_progress [of 0 j]) simp_all
    have a: "acyclic (mother_rel st)" using wf by (simp add: well_formed_def)
    have "resolved_inv st (scan 0 w)"
      using l a less.prems by (rule scan_inv)
    from less.hyps [OF lt this] obtain w' where
      w': "propagate (scan 0 w) = Some w'" "resolved_inv st w'" "nodesval w' = []"
      by blast
    have "propagate w = Some w'"
      using False w'(1) by (subst propagate.simps) simp
    with w'(2,3) show ?thesis by simp
  qed
qed

lemma initial_inv:
  assumes "linked st"
  shows "resolved_inv st \<lparr>nodesval = map fst (nodes st), nodes2 = [], objs = st\<rparr>"
proof -
  have "strID nd = []" if "map_of (nodes st) k = Some nd" for k nd
  proof -
    have "(k, nd) \<in> set (nodes st)" using that by (rule map_of_SomeD)
    then show ?thesis using assms unfolding linked_def by blast
  qed
  moreover have "k \<in> set (map fst (nodes st))" if "map_of (nodes st) k = Some nd" for k nd
    using map_of_SomeD [OF that] by force
  ultimately show ?thesis
    using assms unfolding resolved_inv_def linked_def
    by (simp add: same_tree_refl)
qed

text \<open>
  Span propagation on a built tree. When the tree is built (all records read, the mother
  id of every leaf resolved and the mother id of every internal node \<open>0\<close> or resolved), the
  mother relation is acyclic and every internal node dominates a leaf, the span
  propagation returns with every internal node resolved. Afterwards the \<open>strID\<close> of
  the \<open>s\<close>-th leaf record of the input is \<open>[s]\<close>, so the \<open>n\<close> leaves carry the positions
  \<open>0\<close> to \<open>n - 1\<close> once each, and the \<open>strID\<close> of every internal node is the ascending
  duplicate-free list of exactly the positions of the leaves it dominates.
\<close>

theorem span_propagation_correct:
  assumes "build tree = Inr st" and "well_formed st"
  shows "\<exists>w. propagate \<lparr>nodesval = map fst (nodes st), nodes2 = [], objs = st\<rparr> = Some w
           \<and> nodesval w = []
           \<and> length (leaves (objs w)) = length (filter (\<lambda>i. \<not> is_internal_id i) (map record_id tree))
           \<and> (\<forall>s<length (leaves (objs w)). strID (leaves (objs w) ! s) = [int s])
           \<and> map fst (nodes (objs w)) = map fst (nodes st)
           \<and> (\<forall>(k, nd) \<in> set (nodes (objs w)).
                 strID nd = leaf_span st k \<and> sorted_wrt (<) (strID nd)
                 \<and> set (strID nd) = int ` dominated_leaves st k)"
proof -
  have l: "linked st" using assms(1) by (rule build_linked)
  let ?w0 = "\<lparr>nodesval = map fst (nodes st), nodes2 = [], objs = st\<rparr>"
  have "resolved_inv st ?w0" using l by (rule initial_inv)
  from propagate_resolves [OF l assms(2) this] obtain w where
    w: "propagate ?w0 = Some w" and inv: "resolved_inv st w" and e: "nodesval w = []"
    by blast
  have same: "same_tree st (objs w)"
    and ids: "\<And>k nd. map_of (nodes (objs w)) k = Some nd \<Longrightarrow>
           strID nd = (if k \<in> set (nodesval w) then [] else leaf_span st k)"
    using inv unfolding resolved_inv_def by blast+
  have lv: "leaves (objs w) = leaves st" using same by (simp add: same_tree_def)
  have keys: "map fst (nodes (objs w)) = map fst (nodes st)"
    using same by (rule same_tree_keys)
  have "length (leaves st) = length (map node_id (leaves st))" by simp
  also have "\<dots> = length (filter (\<lambda>i. \<not> is_internal_id i) (map record_id tree))"
    using build_order [OF assms(1)] by (simp only:)
  finally have n: "length (leaves (objs w)) = length (filter (\<lambda>i. \<not> is_internal_id i) (map record_id tree))"
    unfolding lv .
  have leafs: "\<forall>s<length (leaves (objs w)). strID (leaves (objs w) ! s) = [int s]"
    unfolding lv using l by (simp add: linked_def)
  have d: "distinct (map fst (nodes (objs w)))"
    unfolding keys using l by (simp add: linked_def)
  have nodesP: "strID nd = leaf_span st k \<and> sorted_wrt (<) (strID nd)
                 \<and> set (strID nd) = int ` dominated_leaves st k"
    if "(k, nd) \<in> set (nodes (objs w))" for k nd
  proof -
    have "map_of (nodes (objs w)) k = Some nd"
      using d that by (rule map_of_distinct_in)
    from ids [OF this] have "strID nd = leaf_span st k" using e by simp
    then show ?thesis
      by (simp add: leaf_span_def finite_dominated_leaves)
  qed
  have "propagate ?w0 = Some w
           \<and> nodesval w = []
           \<and> length (leaves (objs w)) = length (filter (\<lambda>i. \<not> is_internal_id i) (map record_id tree))
           \<and> (\<forall>s<length (leaves (objs w)). strID (leaves (objs w) ! s) = [int s])
           \<and> map fst (nodes (objs w)) = map fst (nodes st)
           \<and> (\<forall>(k, nd) \<in> set (nodes (objs w)).
                 strID nd = leaf_span st k \<and> sorted_wrt (<) (strID nd)
                 \<and> set (strID nd) = int ` dominated_leaves st k)"
    using w e n leafs keys nodesP by blast
  then show ?thesis by (rule exI)
qed

lemma tree_gap_results:
  "propagate \<lparr>nodesval = [''500'', ''501''], nodes2 = [],
     objs = \<lparr>leaves = [\<lparr>node_id = ''a'', label = ''A'', mother = ''500'', strID = [0], daughters = []\<rparr>,
                    \<lparr>node_id = ''b'', label = ''B'', mother = ''501'', strID = [1], daughters = []\<rparr>,
                    \<lparr>node_id = ''c'', label = ''C'', mother = ''500'', strID = [2], daughters = []\<rparr>],
          nodes = [(''500'', \<lparr>node_id = ''#500'', label = ''NP'', mother = ''501'', strID = [],
                              daughters = [Leaf 0, Leaf 2]\<rparr>),
                   (''501'', \<lparr>node_id = ''#501'', label = ''S'', mother = ''0'', strID = [],
                              daughters = [Leaf 1, Inner ''500'']\<rparr>)]\<rparr>\<rparr>
   = Some \<lparr>nodesval = [], nodes2 = [''500'', ''501''],
     objs = \<lparr>leaves = [\<lparr>node_id = ''a'', label = ''A'', mother = ''500'', strID = [0], daughters = []\<rparr>,
                    \<lparr>node_id = ''b'', label = ''B'', mother = ''501'', strID = [1], daughters = []\<rparr>,
                    \<lparr>node_id = ''c'', label = ''C'', mother = ''500'', strID = [2], daughters = []\<rparr>],
          nodes = [(''500'', \<lparr>node_id = ''#500'', label = ''NP'', mother = ''501'', strID = [0, 2],
                              daughters = [Leaf 0, Leaf 2]\<rparr>),
                   (''501'', \<lparr>node_id = ''#501'', label = ''S'', mother = ''0'', strID = [0, 1, 2],
                              daughters = [Leaf 1, Inner ''500'']\<rparr>)]\<rparr>\<rparr>"
  by code_simp

text \<open>The objects of \<open>tree_gap\<close> when the tree has been built.\<close>

definition store_gap :: store where
  "store_gap = \<lparr>leaves = [\<lparr>node_id = ''a'', label = ''A'', mother = ''500'', strID = [0], daughters = []\<rparr>,
                    \<lparr>node_id = ''b'', label = ''B'', mother = ''501'', strID = [1], daughters = []\<rparr>,
                    \<lparr>node_id = ''c'', label = ''C'', mother = ''500'', strID = [2], daughters = []\<rparr>],
          nodes = [(''500'', \<lparr>node_id = ''#500'', label = ''NP'', mother = ''501'', strID = [],
                              daughters = [Leaf 0, Leaf 2]\<rparr>),
                   (''501'', \<lparr>node_id = ''#501'', label = ''S'', mother = ''0'', strID = [],
                              daughters = [Leaf 1, Inner ''500'']\<rparr>)]\<rparr>"

lemma well_formed_store_gap: "well_formed store_gap"
proof -
  have R: "mother_rel store_gap = {(''500'', ''501'')}"
    by (auto simp: mother_rel_def store_gap_def deref_def)
  have "acyclic ({} :: (string \<times> string) set)"
    by (simp add: acyclic_def)
  then have "acyclic (mother_rel store_gap)"
    unfolding R by (simp add: acyclic_insert)
  moreover have "0 \<in> dominated_leaves store_gap ''500''"
    by (simp add: dominated_leaves_def store_gap_def)
  moreover have "1 \<in> dominated_leaves store_gap ''501''"
    by (simp add: dominated_leaves_def store_gap_def)
  moreover have "fst ` set (nodes store_gap) = {''500'', ''501''}"
    by (simp add: store_gap_def)
  ultimately show ?thesis
    unfolding well_formed_def by auto
qed

theorem span_propagation_correct_witness:
  "\<exists>st w. build tree_gap = Inr st \<and> well_formed st
      \<and> propagate \<lparr>nodesval = map fst (nodes st), nodes2 = [], objs = st\<rparr> = Some w
      \<and> map strID (leaves (objs w)) = [[0], [1], [2]]
      \<and> map (\<lambda>p. (fst p, strID (snd p))) (nodes (objs w)) = [(''500'', [0, 2]), (''501'', [0, 1, 2])]
      \<and> leaf_span st ''500'' = [0, 2] \<and> leaf_span st ''501'' = [0, 1, 2]"
proof -
  have b: "build tree_gap = Inr store_gap"
    unfolding store_gap_def by (rule build_tree_gap)
  from span_propagation_correct [OF b well_formed_store_gap] obtain w where
    w: "propagate \<lparr>nodesval = map fst (nodes store_gap), nodes2 = [], objs = store_gap\<rparr> = Some w"
    and sp: "\<forall>(k, nd) \<in> set (nodes (objs w)). strID nd = leaf_span store_gap k
                 \<and> sorted_wrt (<) (strID nd) \<and> set (strID nd) = int ` dominated_leaves store_gap k"
    by blast
  have "propagate \<lparr>nodesval = map fst (nodes store_gap), nodes2 = [], objs = store_gap\<rparr>
     = Some \<lparr>nodesval = [], nodes2 = [''500'', ''501''],
     objs = \<lparr>leaves = [\<lparr>node_id = ''a'', label = ''A'', mother = ''500'', strID = [0], daughters = []\<rparr>,
                    \<lparr>node_id = ''b'', label = ''B'', mother = ''501'', strID = [1], daughters = []\<rparr>,
                    \<lparr>node_id = ''c'', label = ''C'', mother = ''500'', strID = [2], daughters = []\<rparr>],
          nodes = [(''500'', \<lparr>node_id = ''#500'', label = ''NP'', mother = ''501'', strID = [0, 2],
                              daughters = [Leaf 0, Leaf 2]\<rparr>),
                   (''501'', \<lparr>node_id = ''#501'', label = ''S'', mother = ''0'', strID = [0, 1, 2],
                              daughters = [Leaf 1, Inner ''500'']\<rparr>)]\<rparr>\<rparr>"
    using tree_gap_results by (simp add: store_gap_def)
  with w have weq: "w = \<lparr>nodesval = [], nodes2 = [''500'', ''501''],
     objs = \<lparr>leaves = [\<lparr>node_id = ''a'', label = ''A'', mother = ''500'', strID = [0], daughters = []\<rparr>,
                    \<lparr>node_id = ''b'', label = ''B'', mother = ''501'', strID = [1], daughters = []\<rparr>,
                    \<lparr>node_id = ''c'', label = ''C'', mother = ''500'', strID = [2], daughters = []\<rparr>],
          nodes = [(''500'', \<lparr>node_id = ''#500'', label = ''NP'', mother = ''501'', strID = [0, 2],
                              daughters = [Leaf 0, Leaf 2]\<rparr>),
                   (''501'', \<lparr>node_id = ''#501'', label = ''S'', mother = ''0'', strID = [0, 1, 2],
                              daughters = [Leaf 1, Inner ''500'']\<rparr>)]\<rparr>\<rparr>"
    by simp
  have 1: "map strID (leaves (objs w)) = [[0], [1], [2]]"
    and 2: "map (\<lambda>p. (fst p, strID (snd p))) (nodes (objs w)) = [(''500'', [0, 2]), (''501'', [0, 1, 2])]"
    unfolding weq by simp_all
  have 3: "leaf_span store_gap ''500'' = [0, 2]" "leaf_span store_gap ''501'' = [0, 1, 2]"
    using sp unfolding weq by simp_all
  show ?thesis
    by (rule exI [of _ store_gap], rule exI [of _ w]) (intro conjI b well_formed_store_gap w 1 2 3)
qed

section \<open>Decimal numerals\<close>

text \<open>Decimal digits and the number a digit string stands for.\<close>

definition is_digit :: "char \<Rightarrow> bool" where
  "is_digit c = (c \<in> set ''0123456789'')"

definition digit_val :: "char \<Rightarrow> nat" where
  "digit_val c = of_char c - 48"

definition decimal :: "string \<Rightarrow> nat" where
  "decimal s = foldl (\<lambda>acc c. 10 * acc + digit_val c) 0 s"

lemma digit_cases:
  assumes "d < (10::nat)"
  obtains "d = 0" | "d = 1" | "d = 2" | "d = 3" | "d = 4" | "d = 5" | "d = 6" | "d = 7"
    | "d = 8" | "d = 9"
proof -
  have "d = 0 \<or> d = 1 \<or> d = 2 \<or> d = 3 \<or> d = 4 \<or> d = 5 \<or> d = 6 \<or> d = 7 \<or> d = 8 \<or> d = 9"
    using assms by arith
  then show ?thesis using that by blast
qed

lemma digit_char_props: "d < 10 \<Longrightarrow> is_digit (digit_char d) \<and> digit_val (digit_char d) = d"
  by (erule digit_cases) (simp_all add: is_digit_def digit_val_def digit_char_def)

lemma digits_all_digit: "\<forall>c \<in> set (digits n). is_digit c"
proof (induction n rule: digits.induct)
  case (1 n)
  show ?case
  proof (cases "n < 10")
    case True
    then show ?thesis by (subst digits.simps) (simp add: digit_char_props)
  next
    case False
    have "n mod 10 < 10" by simp
    then have "is_digit (digit_char (n mod 10))" using digit_char_props by blast
    then show ?thesis using False 1 by (subst digits.simps) simp
  qed
qed

lemma digits_nonempty: "digits n \<noteq> []"
  by (subst digits.simps) simp

lemma decimal_snoc: "decimal (s @ [c]) = 10 * decimal s + digit_val c"
  by (simp add: decimal_def)

lemma decimal_digits: "decimal (digits n) = n"
proof (induction n rule: digits.induct)
  case (1 n)
  show ?case
  proof (cases "n < 10")
    case True
    then show ?thesis by (subst digits.simps) (simp add: decimal_def digit_char_props)
  next
    case False
    have "n mod 10 < 10" by simp
    then have "digit_val (digit_char (n mod 10)) = n mod 10" using digit_char_props by blast
    then show ?thesis using False 1 by (subst digits.simps) (simp add: decimal_snoc)
  qed
qed

lemma digits_inj: "digits m = digits n \<Longrightarrow> m = n"
  by (metis decimal_digits)

lemma decimal_append_ge: "decimal s \<le> decimal (s @ t)"
proof (induction t rule: rev_induct)
  case Nil
  show ?case by simp
next
  case (snoc c t)
  have "decimal (s @ t @ [c]) = 10 * decimal (s @ t) + digit_val c"
    using decimal_snoc [of "s @ t" c] by simp
  with snoc show ?case by simp
qed

lemma digits_prefix_le: "prefix (digits a) (digits e) \<Longrightarrow> a \<le> e"
proof -
  assume "prefix (digits a) (digits e)"
  then obtain t where "digits e = digits a @ t" by (auto simp: prefix_def)
  then have "decimal (digits a) \<le> decimal (digits e)"
    using decimal_append_ge [of "digits a" t] by simp
  then show ?thesis by (simp add: decimal_digits)
qed

text \<open>A string that is empty or starts with a character that is no digit.\<close>

definition stops :: "string \<Rightarrow> bool" where
  "stops s = (case s of [] \<Rightarrow> True | c # _ \<Rightarrow> \<not> is_digit c)"

lemma digits_prefix_stop:
  assumes p: "prefix (digits a @ X) (digits e @ Y)" and Y: "stops Y"
  shows "a \<le> e"
proof (cases "length (digits a) \<le> length (digits e)")
  case True
  from p have "prefix (digits a) (digits e @ Y)" by (rule append_prefixD)
  then have "prefix (digits a) (digits e)"
    using True by (auto simp: prefix_append)  
  then show ?thesis by (rule digits_prefix_le)
next
  case False
  then have lt: "length (digits e) < length (digits a)" by simp
  from p obtain Z where eq: "digits e @ Y = digits a @ X @ Z" by (auto simp: prefix_def)
  have "(digits e @ Y) ! length (digits e) = (digits a @ X @ Z) ! length (digits e)"
    by (simp only: eq)
  moreover have "(digits a @ X @ Z) ! length (digits e) = digits a ! length (digits e)"
    using lt by (simp add: nth_append)
  moreover have "is_digit (digits a ! length (digits e))"
    using lt digits_all_digit [of a] by simp
  moreover have "Y \<noteq> []"
    using eq lt by (metis False append_Nil2 length_append le_add1)
  then have "(digits e @ Y) ! length (digits e) = hd Y"
    by (simp add: nth_append hd_conv_nth)
  ultimately have "is_digit (hd Y)" by simp
  with Y \<open>Y \<noteq> []\<close> show ?thesis by (cases Y) (simp_all add: stops_def)
qed

lemma digits_block_eq:
  assumes p: "prefix (digits a @ X) (digits e @ Y)" and X: "stops X" "X \<noteq> []" and Y: "stops Y"
  shows "a = e \<and> prefix X Y"
proof -
  have le: "a \<le> e" using p Y by (rule digits_prefix_stop)
  have "length (digits e) \<le> length (digits a)"
  proof (rule ccontr)
    assume "\<not> length (digits e) \<le> length (digits a)"
    then have lt: "length (digits a) < length (digits e)" by simp
    from p obtain Z where eq: "digits e @ Y = digits a @ X @ Z" by (auto simp: prefix_def)
    have "(digits e @ Y) ! length (digits a) = digits e ! length (digits a)"
      using lt by (simp add: nth_append)
    moreover have "is_digit (digits e ! length (digits a))"
      using lt digits_all_digit [of e] by simp
    moreover have "(digits a @ X @ Z) ! length (digits a) = hd X"
      using X(2) by (simp add: nth_append hd_conv_nth)
    ultimately have "is_digit (hd X)" using eq by simp
    with X show False by (cases X) (simp_all add: stops_def)
  qed
  moreover have "length (digits a) \<le> length (digits e)"
  proof (rule ccontr)
    assume "\<not> length (digits a) \<le> length (digits e)"
    then have lt: "length (digits e) < length (digits a)" by simp
    from p obtain Z where eq: "digits e @ Y = digits a @ X @ Z" by (auto simp: prefix_def)
    have "(digits a @ X @ Z) ! length (digits e) = digits a ! length (digits e)"
      using lt by (simp add: nth_append)
    moreover have "is_digit (digits a ! length (digits e))"
      using lt digits_all_digit [of a] by simp
    moreover have "Y \<noteq> []"
    proof
      assume "Y = []"
      then have "length (digits e) = length (digits a @ X @ Z)" using eq by simp
      then show False using lt by simp
    qed
    then have "(digits e @ Y) ! length (digits e) = hd Y"
      by (simp add: nth_append hd_conv_nth)
    ultimately have "is_digit (hd Y)" using eq by simp
    with Y \<open>Y \<noteq> []\<close> show False by (cases Y) (simp_all add: stops_def)
  qed
  ultimately have len: "length (digits a) = length (digits e)" by simp
  from p obtain Z where eq: "digits e @ Y = digits a @ X @ Z" by (auto simp: prefix_def)
  with len have "digits e = digits a" "Y = X @ Z" by simp_all
  then show ?thesis using digits_inj [of e a] by simp
qed

section \<open>Argument strings as token sequences\<close>

text \<open>
  An argument string is a sequence of tokens: \<open>Y_<p>\<close> for the terminal position \<open>p\<close> and
  \<open>X_<k>\<close> for the variable \<open>k\<close>. \<open>rend\<close> is the text of a token sequence.
\<close>

datatype tk = Pos nat | Var nat

fun tk_head :: "tk \<Rightarrow> char" where
  "tk_head (Pos n) = CHR ''Y''"
| "tk_head (Var n) = CHR ''X''"

fun tk_num :: "tk \<Rightarrow> nat" where
  "tk_num (Pos n) = n"
| "tk_num (Var n) = n"

definition tkstr :: "tk \<Rightarrow> string" where
  "tkstr t = tk_head t # CHR ''_'' # digits (tk_num t)"

definition rend :: "tk list \<Rightarrow> string" where
  "rend ts = concat (map tkstr ts)"

lemma rend_simps [simp]: "rend [] = []" "rend (t # ts) = tkstr t @ rend ts"
  "rend (xs @ ys) = rend xs @ rend ys"
  by (simp_all add: rend_def)

lemma head_props: "\<not> is_digit (tk_head t) \<and> tk_head t \<noteq> CHR ''_'' \<and> tk_head t \<noteq> CHR ''|''"
  by (cases t) (simp_all add: is_digit_def)

lemma tk_eqI: "tk_head r = tk_head t \<Longrightarrow> tk_num r = tk_num t \<Longrightarrow> r = t"
  by (cases r; cases t) simp_all

lemma stops_rend: "\<not> is_digit c \<Longrightarrow> stops (rend ts @ c # s)"
  by (cases ts) (simp_all add: stops_def tkstr_def head_props)

lemma tk_prefix:
  assumes "stops X" "X \<noteq> []" "stops Y"
  shows "prefix (tkstr r @ X) (tkstr t @ Y) = (r = t \<and> prefix X Y)"
proof
  assume "prefix (tkstr r @ X) (tkstr t @ Y)"
  then have h: "tk_head r = tk_head t" and p: "prefix (digits (tk_num r) @ X) (digits (tk_num t) @ Y)"
    by (simp_all add: tkstr_def)
  from digits_block_eq [OF p assms] have "tk_num r = tk_num t" "prefix X Y" by simp_all
  with h show "r = t \<and> prefix X Y" by (simp add: tk_eqI)
next
  assume "r = t \<and> prefix X Y"
  then show "prefix (tkstr r @ X) (tkstr t @ Y)" by simp
qed

lemma rend_prefix:
  assumes "\<not> is_digit c"
  shows "prefix (rend run @ [c]) (rend ts @ ''|'')
           = (prefix run ts \<and> hd (rend (drop (length run) ts) @ ''|'') = c)"
proof (induction run arbitrary: ts)
  case Nil
  have "rend ts @ ''|'' \<noteq> []" by simp
  then show ?case by (cases "rend ts @ ''|''") auto
next
  case (Cons r run)
  show ?case
  proof (cases ts)
    case Nil
    then show ?thesis using head_props [of r] by (simp add: tkstr_def)
  next
    case (Cons t ts')
    have "prefix (tkstr r @ (rend run @ [c])) (tkstr t @ (rend ts' @ ''|''))
            = (r = t \<and> prefix (rend run @ [c]) (rend ts' @ ''|''))"
    proof (rule tk_prefix)
      show "stops (rend run @ [c])" using assms by (rule stops_rend)
      show "rend run @ [c] \<noteq> []" by simp
      show "stops (rend ts' @ ''|'')" by (rule stops_rend) (simp add: is_digit_def)
    qed
    then show ?thesis using Cons Cons.IH [of ts'] by auto
  qed
qed

lemma replace_scan_skip:
  "old \<noteq> [] \<Longrightarrow> hd old \<notin> set u \<Longrightarrow>
   replace_scan old new (u @ rest) = u @ replace_scan old new rest"
proof (induction u)
  case Nil
  show ?case by simp
next
  case (Cons c u)
  then have "\<not> prefix old (c # u @ rest)"
    by (cases old) auto
  then show ?case using Cons by simp
qed

lemma replace_scan_copy:
  "\<not> prefix old (c # cs) \<Longrightarrow> replace_scan old new (c # cs) = c # replace_scan old new cs"
  by simp

lemma digits_no_head: "tk_head r \<notin> set (CHR ''_'' # digits n)"
  using digits_all_digit [of n] head_props [of r] by auto

lemma replace_scan_token:
  assumes "\<not> prefix (tkstr r @ pat) (tkstr t @ rest)"
  shows "replace_scan (tkstr r @ pat) new (tkstr t @ rest)
           = tkstr t @ replace_scan (tkstr r @ pat) new rest"
proof -
  let ?old = "tkstr r @ pat"
  have hd: "hd ?old = tk_head r" and ne: "?old \<noteq> []" by (simp_all add: tkstr_def)
  have split: "tkstr t @ rest = tk_head t # ((CHR ''_'' # digits (tk_num t)) @ rest)"
    by (simp add: tkstr_def)
  have "replace_scan ?old new (tkstr t @ rest)
          = tk_head t # replace_scan ?old new ((CHR ''_'' # digits (tk_num t)) @ rest)"
    using assms unfolding split by (rule replace_scan_copy)
  also have "replace_scan ?old new ((CHR ''_'' # digits (tk_num t)) @ rest)
          = (CHR ''_'' # digits (tk_num t)) @ replace_scan ?old new rest"
    using ne by (rule replace_scan_skip) (simp only: hd digits_no_head not_False_eq_True)
  finally show ?thesis by (simp add: tkstr_def)
qed

lemma replace_scan_absent:
  assumes "run \<noteq> []" and "\<not> is_digit c"
  shows "hd run \<notin> set ts \<Longrightarrow>
         replace_scan (rend run @ [c]) new (rend ts @ ''|'') = rend ts @ ''|''"
proof (induction ts)
  case Nil
  obtain r run' where run: "run = r # run'" using assms(1) by (cases run) auto
  have "\<not> prefix (rend run @ [c]) ''|''"
    using head_props [of r] by (simp add: run tkstr_def)
  then show ?case by simp
next
  case (Cons t ts)
  obtain r run' where run: "run = r # run'" using assms(1) by (cases run) auto
  have "\<not> prefix run (t # ts)" using Cons.prems run by auto
  then have np: "\<not> prefix (rend run @ [c]) (rend (t # ts) @ ''|'')"
    using rend_prefix [OF assms(2), of run "t # ts"] by blast
  have "replace_scan (tkstr r @ (rend run' @ [c])) new (tkstr t @ (rend ts @ ''|''))
          = tkstr t @ replace_scan (tkstr r @ (rend run' @ [c])) new (rend ts @ ''|'')"
    using np by (intro replace_scan_token) (simp add: run)
  moreover have "hd run \<notin> set ts" using Cons.prems by simp
  ultimately show ?case using Cons.IH run by simp
qed

section \<open>The three marked replacements, token by token\<close>

text \<open>
  Replacing, in a token sequence, the first occurrence of the token run \<open>run\<close> by the single
  token \<open>v\<close>; \<open>subst_at\<close> does so only where the token after the run starts with the
  character \<open>c\<close> (with \<open>|\<close> standing for the end of the sequence).
\<close>

fun subst_run :: "tk list \<Rightarrow> tk \<Rightarrow> tk list \<Rightarrow> tk list" where
  "subst_run run v [] = []"
| "subst_run run v (t # ts) =
     (if prefix run (t # ts) then v # drop (length run) (t # ts) else t # subst_run run v ts)"

fun subst_at :: "tk list \<Rightarrow> char \<Rightarrow> tk \<Rightarrow> tk list \<Rightarrow> tk list" where
  "subst_at run c v [] = []"
| "subst_at run c v (t # ts) =
     (if prefix run (t # ts) \<and> hd (rend (drop (length run) (t # ts)) @ ''|'') = c
      then v # drop (length run) (t # ts) else t # subst_at run c v ts)"

lemma drop_snoc_length: "drop (length (xs @ [c])) (xs @ ys) = tl ys"
  by (induction xs) (simp_all add: drop_Suc)

lemma replace_scan_match:
  "old \<noteq> [] \<Longrightarrow> prefix old s \<Longrightarrow>
   replace_scan old new s = new @ replace_scan old new (drop (length old) s)"
proof (cases s)
  case Nil
  assume "old \<noteq> []" "prefix old s"
  with Nil show ?thesis by simp
next
  case (Cons c cs)
  assume a: "old \<noteq> []" "prefix old s"
  then have "drop (length old - 1) cs = drop (length old) (c # cs)"
    by (cases old) simp_all
  with a Cons show ?thesis by simp
qed

lemma boundary_tail:
  assumes run: "run \<noteq> []" and c: "\<not> is_digit c" and absent: "hd run \<notin> set post"
    and b: "hd (rend post @ ''|'') = c"
  shows "c # replace_scan (rend run @ [c]) new (tl (rend post @ ''|'')) = rend post @ ''|''"
proof (cases post)
  case Nil
  then show ?thesis using b by simp
next
  case (Cons t post')
  obtain r run' where r: "run = r # run'" using run by (cases run) auto
  let ?old = "rend run @ [c]"
  have hd: "hd ?old = tk_head r" and ne: "?old \<noteq> []" by (simp_all add: r tkstr_def)
  have tl: "tl (rend post @ ''|'') = (CHR ''_'' # digits (tk_num t)) @ (rend post' @ ''|'')"
    by (simp add: Cons tkstr_def)
  have "replace_scan ?old new ((CHR ''_'' # digits (tk_num t)) @ (rend post' @ ''|''))
          = (CHR ''_'' # digits (tk_num t)) @ replace_scan ?old new (rend post' @ ''|'')"
    using ne by (rule replace_scan_skip) (simp only: hd digits_no_head not_False_eq_True)
  also have "replace_scan ?old new (rend post' @ ''|'') = rend post' @ ''|''"
    using run c by (rule replace_scan_absent) (use absent Cons in simp)
  finally have "replace_scan ?old new (tl (rend post @ ''|''))
      = (CHR ''_'' # digits (tk_num t)) @ rend post' @ ''|''"
    unfolding tl .
  moreover have "c = tk_head t" using b Cons by (simp add: tkstr_def)
  ultimately show ?thesis by (simp add: Cons tkstr_def)
qed

lemma replace_scan_subst_at:
  assumes run: "run \<noteq> []" and c: "\<not> is_digit c"
  shows "distinct ts \<Longrightarrow>
         replace_scan (rend run @ [c]) (tkstr v @ [c]) (rend ts @ ''|'')
           = rend (subst_at run c v ts) @ ''|''"
proof (induction ts)
  case Nil
  obtain r run' where r: "run = r # run'" using run by (cases run) auto
  have "\<not> prefix (rend run @ [c]) ''|''"
    using head_props [of r] by (simp add: r tkstr_def)
  then show ?case by simp
next
  case (Cons t ts)
  obtain r run' where r: "run = r # run'" using run by (cases run) auto
  let ?old = "rend run @ [c]"
  let ?new = "tkstr v @ [c]"
  let ?post = "drop (length run) (t # ts)"
  have pre_iff: "prefix ?old (rend (t # ts) @ ''|'')
      = (prefix run (t # ts) \<and> hd (rend ?post @ ''|'') = c)"
    using c by (rule rend_prefix)
  show ?case
  proof (cases "prefix run (t # ts) \<and> hd (rend ?post @ ''|'') = c")
    case True
    then have p: "prefix ?old (rend (t # ts) @ ''|'')" using pre_iff by simp
    from True obtain post where ts: "t # ts = run @ post" by (auto simp: prefix_def)
    then have post: "?post = post" by simp
    have "hd run = t" using ts r by simp
    moreover have "set post \<subseteq> set ts"
      using ts r by (cases run) auto
    ultimately have absent: "hd run \<notin> set post" using Cons.prems by auto
    have "rend (t # ts) @ ''|'' = rend run @ (rend post @ ''|'')"
      unfolding ts by simp
    then have "drop (length ?old) (rend (t # ts) @ ''|'') = tl (rend post @ ''|'')"
      by (simp only: drop_snoc_length)
    then have "replace_scan ?old ?new (rend (t # ts) @ ''|'')
        = ?new @ replace_scan ?old ?new (tl (rend post @ ''|''))"
      using replace_scan_match [of ?old "rend (t # ts) @ ''|''" ?new] p by simp
    also have "\<dots> = tkstr v @ (c # replace_scan ?old ?new (tl (rend post @ ''|'')))"
      by simp
    also have "c # replace_scan ?old ?new (tl (rend post @ ''|'')) = rend post @ ''|''"
      using run c absent by (rule boundary_tail) (use True post in simp)
    finally show ?thesis using True post by simp
  next
    case False
    then have np: "\<not> prefix ?old (rend (t # ts) @ ''|'')" using pre_iff by simp
    have "replace_scan (tkstr r @ (rend run' @ [c])) ?new (tkstr t @ (rend ts @ ''|''))
          = tkstr t @ replace_scan (tkstr r @ (rend run' @ [c])) ?new (rend ts @ ''|'')"
      using np by (intro replace_scan_token) (simp add: r)
    moreover have "distinct ts" using Cons.prems by simp
    then have "replace_scan ?old ?new (rend ts @ ''|'') = rend (subst_at run c v ts) @ ''|''"
      by (rule Cons.IH)
    moreover have "subst_at run c v (t # ts) = t # subst_at run c v ts"
      by (simp only: subst_at.simps False if_False)
    ultimately show ?thesis by (simp add: r)
  qed
qed

lemma subst_at_absent: "hd run \<notin> set ts \<Longrightarrow> run \<noteq> [] \<Longrightarrow> subst_at run c v ts = ts"
proof (induction ts)
  case Nil
  show ?case by simp
next
  case (Cons t ts)
  then have "\<not> prefix run (t # ts)" by (cases run) auto
  then show ?case using Cons by simp
qed

lemma subst_run_absent: "hd run \<notin> set ts \<Longrightarrow> run \<noteq> [] \<Longrightarrow> subst_run run v ts = ts"
proof (induction ts)
  case Nil
  show ?case by simp
next
  case (Cons t ts)
  then have "\<not> prefix run (t # ts)" by (cases run) auto
  then show ?case using Cons by simp
qed

lemma boundary_cases:
  "hd (rend ts @ ''|'') = CHR ''Y'' \<or> hd (rend ts @ ''|'') = CHR ''X'' \<or> hd (rend ts @ ''|'') = CHR ''|''"
proof (cases ts)
  case Nil
  then show ?thesis by simp
next
  case (Cons t ts')
  then show ?thesis by (cases t) (simp_all add: tkstr_def)
qed

lemma three_substs:
  assumes run: "run \<noteq> []"
  shows "distinct ts \<Longrightarrow> v \<notin> set ts \<Longrightarrow>
         subst_at run (CHR ''|'') v (subst_at run (CHR ''X'') v (subst_at run (CHR ''Y'') v ts))
           = subst_run run v ts"
proof (induction ts)
  case Nil
  show ?case by simp
next
  case (Cons t ts)
  show ?case
  proof (cases "hd run = t")
    case False
    then have np: "\<not> prefix run (t # us)" for us using run by (cases run) auto
    have "distinct ts" "v \<notin> set ts" using Cons.prems by simp_all
    then show ?thesis using Cons.IH np by simp
  next
    case True
    then have absent: "hd run \<notin> set ts" using Cons.prems(1) by simp
    have id: "subst_at run c v ts = ts" for c
      using absent run by (rule subst_at_absent)
    show ?thesis
    proof (cases "prefix run (t # ts)")
      case False
      then show ?thesis using id subst_run_absent [OF absent run] by simp
    next
      case p: True
      let ?post = "drop (length run) (t # ts)"
      have "set ?post \<subseteq> set ts"
        using run by (cases run) (auto dest: in_set_dropD)
      then have "hd run \<notin> set (v # ?post)"
        using absent True Cons.prems(2) by auto
      then have id2: "subst_at run c v (v # ?post) = v # ?post" for c
        using run by (rule subst_at_absent)
      from boundary_cases [of ?post] show ?thesis
      proof (elim disjE)
        assume "hd (rend ?post @ ''|'') = CHR ''Y''"
        then show ?thesis using p id2 by simp
      next
        assume "hd (rend ?post @ ''|'') = CHR ''X''"
        then show ?thesis using p id id2 by simp
      next
        assume "hd (rend ?post @ ''|'') = CHR ''|''"
        then show ?thesis using p id id2 by simp
      qed
    qed
  qed
qed

lemma subst_at_keeps:
  assumes run: "run \<noteq> []"
  shows "distinct ts \<Longrightarrow> v \<notin> set ts \<Longrightarrow> distinct (subst_at run c v ts) \<and> set (subst_at run c v ts) \<subseteq> insert v (set ts)"
proof (induction ts)
  case Nil
  show ?case by simp
next
  case (Cons t ts)
  have "set (drop (length run) (t # ts)) \<subseteq> set (t # ts)" by (rule set_drop_subset)
  moreover have "distinct (drop (length run) (t # ts))" using Cons.prems(1) by (rule distinct_drop)
  ultimately show ?case using Cons by auto
qed

lemma subst_at_result:
  assumes run: "run \<noteq> []" and v: "v \<noteq> hd run"
  shows "distinct ts \<Longrightarrow> v \<notin> set ts \<Longrightarrow>
         subst_at run c v ts = ts \<or> hd run \<notin> set (subst_at run c v ts)"
proof (induction ts)
  case Nil
  show ?case by simp
next
  case (Cons t ts)
  show ?case
  proof (cases "hd run = t")
    case True
    then have absent: "hd run \<notin> set ts" using Cons.prems(1) by simp
    have "set (drop (length run) (t # ts)) \<subseteq> set ts"
      using run by (cases run) (auto dest: in_set_dropD)
    then have "hd run \<notin> set (v # drop (length run) (t # ts))"
      using absent v by auto
    then show ?thesis
      using subst_at_absent [OF absent run, of c v] by auto
  next
    case False
    then have np: "\<not> prefix run (t # ts)" using run by (cases run) auto
    have "subst_at run c v ts = ts \<or> hd run \<notin> set (subst_at run c v ts)"
      using Cons by simp
    then show ?thesis using np False by auto
  qed
qed

lemma replace_scan_subst_at_weak:
  assumes run: "run \<noteq> []" and c: "\<not> is_digit c" and ts: "distinct ts \<or> hd run \<notin> set ts"
  shows "replace_scan (rend run @ [c]) (tkstr v @ [c]) (rend ts @ ''|'')
           = rend (subst_at run c v ts) @ ''|''"
proof (cases "hd run \<in> set ts")
  case True
  with ts have "distinct ts" by simp
  with run c show ?thesis by (rule replace_scan_subst_at)
next
  case False
  then show ?thesis
    using replace_scan_absent [OF run c False] subst_at_absent [OF False run] by simp
qed

lemma replace_nonempty: "old \<noteq> [] \<Longrightarrow> replace old new s = replace_scan old new s"
  by (simp add: replace_def)

lemma marked_replacements:
  assumes run: "run \<noteq> []" and d: "distinct ts" and v: "v \<notin> set ts" "v \<noteq> hd run"
  shows "butlast (replace (rend run @ ''|'') (tkstr v @ ''|'')
           (replace (rend run @ ''X'') (tkstr v @ ''X'')
             (replace (rend run @ ''Y'') (tkstr v @ ''Y'') (rend ts @ ''|''))))
         = rend (subst_run run v ts)"
proof -
  let ?t1 = "subst_at run (CHR ''Y'') v ts"
  let ?t2 = "subst_at run (CHR ''X'') v ?t1"
  let ?t3 = "subst_at run (CHR ''|'') v ?t2"
  have nd: "\<not> is_digit (CHR ''Y'')" "\<not> is_digit (CHR ''X'')" "\<not> is_digit (CHR ''|'')"
    by (simp_all add: is_digit_def)
  have s1: "replace (rend run @ ''Y'') (tkstr v @ ''Y'') (rend ts @ ''|'') = rend ?t1 @ ''|''"
    using replace_scan_subst_at_weak [OF run nd(1), of ts v] d by (simp add: replace_nonempty)
  have d1: "distinct ?t1"
    using subst_at_keeps [OF run d v(1)] by simp
  have r1: "?t1 = ts \<or> hd run \<notin> set ?t1"
    using run v(2) d v(1) by (rule subst_at_result)
  have s2: "replace (rend run @ ''X'') (tkstr v @ ''X'') (rend ?t1 @ ''|'') = rend ?t2 @ ''|''"
    using replace_scan_subst_at_weak [OF run nd(2), of ?t1 v] d1 by (simp add: replace_nonempty)
  have w2: "distinct ?t2 \<or> hd run \<notin> set ?t2"
  proof (cases "?t1 = ts")
    case True
    then show ?thesis using subst_at_keeps [OF run d v(1), of "CHR ''X''"] by simp
  next
    case False
    with r1 have a: "hd run \<notin> set ?t1" by simp
    then have "?t2 = ?t1" using run by (rule subst_at_absent)
    with a show ?thesis by simp
  qed
  have s3: "replace (rend run @ ''|'') (tkstr v @ ''|'') (rend ?t2 @ ''|'') = rend ?t3 @ ''|''"
    using replace_scan_subst_at_weak [OF run nd(3) w2, of v] by (simp add: replace_nonempty)
  have "?t3 = subst_run run v ts"
    using run d v(1) by (rule three_substs)
  then show ?thesis
    unfolding s1 s2 s3 by simp
qed

lemma str_nat: "str (int n) = digits n"
  by (simp add: str_def)

lemma var_text: "''X_'' @ str (int cnt) = tkstr (Var cnt)"
  by (simp add: tkstr_def str_nat)

lemma pos_text: "''Y_'' @ str (int n) = tkstr (Pos n)"
  by (simp add: tkstr_def str_nat)

lemma py_in_sublist: "py_in sub s = sublist sub s"
  by (induction s) (simp_all add: sublist_Cons_right)

lemma subst_run_found:
  assumes "run \<noteq> []"
  shows "distinct (pre @ run @ post) \<Longrightarrow> subst_run run v (pre @ run @ post) = pre @ v # post"
proof (induction pre)
  case Nil
  then show ?case using assms by (cases run) simp_all
next
  case (Cons t pre)
  have "hd run \<noteq> t" using Cons.prems assms by (cases run) auto
  then have "\<not> prefix run (t # pre @ run @ post)" using assms by (cases run) auto
  then show ?case using Cons by simp
qed

lemma subst_run_missing:
  "\<not> sublist run ts \<Longrightarrow> subst_run run v ts = ts"
proof (induction ts)
  case Nil
  show ?case by simp
next
  case (Cons t ts)
  then have "\<not> prefix run (t # ts)" "\<not> sublist run ts"
    by (simp_all add: sublist_Cons_right)
  then show ?case using Cons.IH by simp
qed

text \<open>
  One round of the innermost loop (lines 160-168), for a left-hand-side argument that
  is the text of the pairwise different tokens \<open>ts\<close> and a right-hand-side argument that is
  the text of the non-empty token run \<open>run\<close>, with the variable \<open>X_<count>\<close> new: if the
  containment test fails nothing changes; if it succeeds, the left-hand-side argument
  becomes the text of \<open>ts\<close> with the token run \<open>run\<close> replaced, as a whole, by the new
  variable. Where \<open>run\<close> occurs in \<open>ts\<close> the test succeeds and exactly that run is replaced;
  where \<open>run\<close> is no run of whole tokens of \<open>ts\<close> (its text may still occur inside longer
  tokens, as \<open>Y_1\<close> in \<open>Y_10\<close>) the argument is left as it is. No other argument is touched.
\<close>

theorem contract_at_token_run:
  assumes "la ! j = rend ts" and "pa ! i = rend run" and "run \<noteq> []" and "distinct ts"
    and "Var cnt \<notin> set ts" and "Var cnt \<noteq> hd run"
  shows "contract_at i j (la, pa, cnt) =
           (if py_in (rend run) (rend ts)
            then (la[j := rend (subst_run run (Var cnt) ts)], pa[i := tkstr (Var cnt)], cnt + 1)
            else (la, pa, cnt))
       \<and> (\<forall>pre post. ts = pre @ run @ post \<longrightarrow>
             py_in (rend run) (rend ts) \<and> subst_run run (Var cnt) ts = pre @ Var cnt # post)
       \<and> (\<not> sublist run ts \<longrightarrow> subst_run run (Var cnt) ts = ts)"
proof (intro conjI allI impI)
  show "contract_at i j (la, pa, cnt) =
           (if py_in (rend run) (rend ts)
            then (la[j := rend (subst_run run (Var cnt) ts)], pa[i := tkstr (Var cnt)], cnt + 1)
            else (la, pa, cnt))"
    using marked_replacements [OF assms(3,4,5,6)] assms(1,2)
    by (simp add: contract_at_def Let_def tkstr_def str_nat)
next
  fix pre post assume ts: "ts = pre @ run @ post"
  have "sublist (rend run) (rend pre @ rend run @ rend post)"
    by (rule sublist_appendI)
  then show "py_in (rend run) (rend ts)" by (simp add: py_in_sublist ts)
  show "subst_run run (Var cnt) ts = pre @ Var cnt # post"
    unfolding ts using assms(3,4) ts by (intro subst_run_found) simp_all
next
  assume "\<not> sublist run ts"
  then show "subst_run run (Var cnt) ts = ts" by (rule subst_run_missing)
qed

theorem contract_at_token_run_witness:
  "contract_at 0 0 ([''Y_1Y_10Y_11''], [''Y_1''], 0) = ([''X_0Y_10Y_11''], [''X_0''], 1)
   \<and> contract_at 0 0 ([''Y_10Y_11''], [''Y_1''], 0) = ([''Y_10Y_11''], [''X_0''], 1)"
proof -
  have 1: "contract_at 0 0 ([''Y_1Y_10Y_11''], [''Y_1''], 0) = ([''X_0Y_10Y_11''], [''X_0''], 1)"
    using contract_at_token_run [of "[''Y_1Y_10Y_11'']" 0 "[Pos 1, Pos 10, Pos 11]" "[''Y_1'']" 0
        "[Pos 1]" 0]
    by (simp add: tkstr_def digits.simps digit_char_def)
  have 2: "contract_at 0 0 ([''Y_10Y_11''], [''Y_1''], 0) = ([''Y_10Y_11''], [''X_0''], 1)"
    using contract_at_token_run [of "[''Y_10Y_11'']" 0 "[Pos 10, Pos 11]" "[''Y_1'']" 0
        "[Pos 1]" 0]
    by (simp add: tkstr_def digits.simps digit_char_def)
  from 1 2 show ?thesis by (rule conjI)
qed

section \<open>Contracting one right-hand-side argument\<close>

text \<open>The terminal positions whose tokens are still in a token sequence, in order.\<close>

definition positions :: "tk list \<Rightarrow> nat list" where
  "positions ts = concat (map (\<lambda>t. case t of Pos n \<Rightarrow> [n] | Var k \<Rightarrow> []) ts)"

lemma positions_simps [simp]:
  "positions [] = []" "positions (Pos n # ts) = n # positions ts"
  "positions (Var k # ts) = positions ts" "positions (xs @ ys) = positions xs @ positions ys"
  by (simp_all add: positions_def)

lemma set_positions: "set (positions ts) = {n. Pos n \<in> set ts}"
proof (induction ts)
  case Nil
  show ?case by simp
next
  case (Cons t ts)
  then show ?case by (cases t) auto
qed

lemma py_in_skip: "pat \<noteq> [] \<Longrightarrow> hd pat \<notin> set u \<Longrightarrow> py_in pat (u @ s) = py_in pat s"
proof (induction u)
  case Nil
  show ?case by simp
next
  case (Cons c u)
  then have "\<not> prefix pat (c # u @ s)" by (cases pat) auto
  then show ?case using Cons by simp
qed

lemma stops_rend_plain: "stops (rend ts)"
  by (cases ts) (simp_all add: stops_def tkstr_def head_props)

lemma py_in_lower:
  assumes "\<forall>t \<in> set ts. tk_head t = tk_head t0 \<longrightarrow> tk_num t < tk_num t0"
  shows "\<not> py_in (tkstr t0 @ sfx) (rend ts)"
  using assms
proof (induction ts)
  case Nil
  show ?case by (simp add: tkstr_def)
next
  case (Cons t ts)
  let ?pat = "tkstr t0 @ sfx"
  have ne: "?pat \<noteq> []" and hd: "hd ?pat = tk_head t0" by (simp_all add: tkstr_def)
  have np: "\<not> prefix ?pat (tkstr t @ rend ts)"
  proof
    assume "prefix ?pat (tkstr t @ rend ts)"
    then have h: "tk_head t0 = tk_head t"
      and p: "prefix (digits (tk_num t0) @ sfx) (digits (tk_num t) @ rend ts)"
      by (simp_all add: tkstr_def)
    from p have "tk_num t0 \<le> tk_num t"
      using stops_rend_plain by (rule digits_prefix_stop)
    then show False using Cons.prems h by simp
  qed
  have "py_in ?pat (rend (t # ts))
      = (prefix ?pat (tkstr t @ rend ts) \<or> py_in ?pat ((CHR ''_'' # digits (tk_num t)) @ rend ts))"
    by (simp add: tkstr_def)
  also have "py_in ?pat ((CHR ''_'' # digits (tk_num t)) @ rend ts) = py_in ?pat (rend ts)"
    using ne by (rule py_in_skip) (simp only: hd digits_no_head not_False_eq_True)
  finally show ?case using np Cons by simp
qed

lemma contract_at_miss:
  "\<not> py_in (pa ! i) (la ! j) \<Longrightarrow> contract_at i j (la, pa, cnt) = (la, pa, cnt)"
  by (simp add: contract_at_def)

lemma contract_at_hit:
  assumes "la ! j = rend (pre @ run @ post)" and "pa ! i = rend run" and "run \<noteq> []"
    and "distinct (pre @ run @ post)" and "Var cnt \<notin> set (pre @ run @ post)"
  shows "contract_at i j (la, pa, cnt)
           = (la[j := rend (pre @ Var cnt # post)], pa[i := tkstr (Var cnt)], cnt + 1)"
proof -
  let ?ts = "pre @ run @ post"
  have ne: "Var cnt \<noteq> hd run" using assms(3,5) by (cases run) auto
  have "sublist (rend run) (rend pre @ rend run @ rend post)" by (rule sublist_appendI)
  then have hit: "py_in (pa ! i) (la ! j)" using assms(1,2) by (simp add: py_in_sublist)
  have "subst_run run (Var cnt) ?ts = pre @ Var cnt # post"
    using assms(3,4) by (rule subst_run_found)
  then show ?thesis
    using marked_replacements [OF assms(3,4,5) ne] assms(1,2) hit
    by (simp add: contract_at_def Let_def tkstr_def str_nat)
qed

lemma fold_unchanged: "(\<And>x. x \<in> set xs \<Longrightarrow> f x s = s) \<Longrightarrow> fold f xs s = s"
  by (induction xs) simp_all

lemma upt_split: "j0 < n \<Longrightarrow> [0..<n] = [0..<j0] @ j0 # [Suc j0..<n]"
proof -
  assume a: "j0 < n"
  have "[0..<j0 + (n - j0)] = [0..<j0] @ [j0..<j0 + (n - j0)]"
    by (rule upt_add_eq_append) simp
  then have "[0..<n] = [0..<j0] @ [j0..<n]" using a by simp
  then show ?thesis using a by (simp add: upt_conv_Cons)
qed

lemma concat_nth_split:
  assumes "j < length L"
  shows "concat L = concat (take j L) @ L ! j @ concat (drop (Suc j) L)"
proof -
  have "concat L = concat (take j L @ drop j L)" by simp
  also have "\<dots> = concat (take j L) @ concat (drop j L)"
    by (rule concat_append)
  also have "drop j L = L ! j # drop (Suc j) L"
    using assms by (rule Cons_nth_drop_Suc [symmetric])
  finally show ?thesis by simp
qed

lemma nth_in_take: "j < j0 \<Longrightarrow> j0 < length L \<Longrightarrow> L ! j \<in> set (take j0 L)"
  by (auto simp: in_set_conv_nth intro!: exI [of _ j])

lemma earlier_positions:
  assumes s: "sorted_wrt (<) (positions (concat L))" and j: "j < j0" "j0 < length L"
    and e: "Pos e \<in> set (L ! j)" and a: "Pos a \<in> set (L ! j0)"
  shows "e < a"
proof -
  have "L ! j \<in> set (take j0 L)"
    using j by (rule nth_in_take)
  then have "Pos e \<in> set (concat (take j0 L))" using e by auto
  then have 1: "e \<in> set (positions (concat (take j0 L)))" by (simp add: set_positions)
  have 2: "a \<in> set (positions (L ! j0))" using a by (simp add: set_positions)
  have "positions (concat L) = positions (concat (take j0 L)) @ positions (L ! j0)
          @ positions (concat (drop (Suc j0) L))"
    by (subst concat_nth_split [OF j(2)]) simp
  then have "sorted_wrt (<) (positions (concat (take j0 L)) @ positions (L ! j0)
          @ positions (concat (drop (Suc j0) L)))"
    using s by simp
  then show ?thesis using 1 2 by (auto simp: sorted_wrt_append)
qed

lemma contract_arg:
  assumes s: "sorted_wrt (<) (positions (concat L))"
    and v: "\<forall>k. Var k \<in> set (concat L) \<longrightarrow> k < cnt"
    and d: "distinct (concat L)"
    and j0: "j0 < length L" and at: "L ! j0 = pre @ map Pos r @ post" and r: "r \<noteq> []"
    and pa: "pa ! i = rend (map Pos r)" and i: "i < length pa"
  shows "fold (contract_at i) [0..<length L] (map rend L, pa, cnt)
           = (map rend (L[j0 := pre @ Var cnt # post]), pa[i := tkstr (Var cnt)], cnt + 1)"
proof -
  let ?run = "map Pos r"
  let ?L' = "L[j0 := pre @ Var cnt # post]"
  obtain a r' where ra: "r = a # r'" using r by (cases r) auto
  have split: "[0..<length L] = [0..<j0] @ j0 # [Suc j0..<length L]"
    using j0 by (rule upt_split)
  have in_concat: "set (L ! j) \<subseteq> set (concat L)" if "j < length L" for j
  proof -
    have "L ! j \<in> set L" using that by simp
    then show ?thesis by auto
  qed
  have p1: "contract_at i j (map rend L, pa, cnt) = (map rend L, pa, cnt)" if "j \<in> set [0..<j0]" for j
  proof (rule contract_at_miss)
    have j: "j < j0" using that by simp
    have "Pos a \<in> set (L ! j0)" using at ra by simp
    then have "tk_num t < tk_num (Pos a)" if "t \<in> set (L ! j)" "tk_head t = tk_head (Pos a)" for t
    proof (cases t)
      case (Pos e)
      then show ?thesis using earlier_positions [OF s j j0, of e a] that(1) \<open>Pos a \<in> set (L ! j0)\<close> by simp
    next
      case (Var k)
      then show ?thesis using that(2) by simp
    qed
    then have "\<forall>t \<in> set (L ! j). tk_head t = tk_head (Pos a) \<longrightarrow> tk_num t < tk_num (Pos a)"
      by blast
    then have "\<not> py_in (tkstr (Pos a) @ rend (map Pos r')) (rend (L ! j))"
      by (rule py_in_lower)
    then show "\<not> py_in (pa ! i) (map rend L ! j)"
      using j j0 pa ra by simp
  qed
  have "distinct (concat (take j0 L) @ L ! j0 @ concat (drop (Suc j0) L))"
    using d concat_nth_split [OF j0] by simp
  then have "distinct (L ! j0)" by simp
  then have dj: "distinct (pre @ ?run @ post)"
    unfolding at .
  have fresh: "Var cnt \<notin> set (concat L)" using v by auto
  then have fr: "Var cnt \<notin> set (pre @ ?run @ post)"
    using in_concat [OF j0] at by auto
  have p2: "contract_at i j0 (map rend L, pa, cnt) = (map rend ?L', pa[i := tkstr (Var cnt)], cnt + 1)"
  proof -
    have "contract_at i j0 (map rend L, pa, cnt)
        = ((map rend L)[j0 := rend (pre @ Var cnt # post)], pa[i := tkstr (Var cnt)], cnt + 1)"
      using dj fr r pa at j0 by (intro contract_at_hit [where run = ?run]) simp_all
    then show ?thesis by (simp add: map_update)
  qed
  have p3: "contract_at i j (map rend ?L', pa[i := tkstr (Var cnt)], cnt + 1)
      = (map rend ?L', pa[i := tkstr (Var cnt)], cnt + 1)"
    if "j \<in> set [Suc j0..<length L]" for j
  proof -
    have j: "j0 < j" "j < length L" using that by simp_all
    have same: "?L' ! j = L ! j" using j by simp
    have "tk_num t < tk_num (Var cnt)" if "t \<in> set (L ! j)" "tk_head t = tk_head (Var cnt)" for t
    proof (cases t)
      case (Pos n)
      then show ?thesis using that(2) by simp
    next
      case (Var k)
      then have "Var k \<in> set (concat L)" using that(1) in_concat [OF j(2)] by blast
      then show ?thesis using v Var by simp
    qed
    then have "\<forall>t \<in> set (L ! j). tk_head t = tk_head (Var cnt) \<longrightarrow> tk_num t < tk_num (Var cnt)"
      by blast
    then have "\<not> py_in (tkstr (Var cnt) @ []) (rend (L ! j))"
      by (rule py_in_lower)
    then have "\<not> py_in (pa[i := tkstr (Var cnt)] ! i) (map rend ?L' ! j)"
      using i j same by simp
    then show ?thesis by (rule contract_at_miss)
  qed
  show ?thesis
  proof -
    have 1: "fold (contract_at i) [0..<j0] (map rend L, pa, cnt) = (map rend L, pa, cnt)"
      by (rule fold_unchanged) (rule p1)
    have 3: "fold (contract_at i) [Suc j0..<length L] (map rend ?L', pa[i := tkstr (Var cnt)], cnt + 1)
        = (map rend ?L', pa[i := tkstr (Var cnt)], cnt + 1)"
      by (rule fold_unchanged) (rule p3)
    have "fold (contract_at i) [0..<length L] (map rend L, pa, cnt)
        = fold (contract_at i) [Suc j0..<length L]
            (contract_at i j0 (fold (contract_at i) [0..<j0] (map rend L, pa, cnt)))"
      by (subst split) simp
    then show ?thesis by (simp only: 1 p2 3)
  qed
qed

section \<open>Contracting all arguments of a rule\<close>

text \<open>
  What holds of the left-hand-side token sequences \<open>L\<close> while the runs \<open>W\<close> of the daughters
  are still to be contracted and \<open>cnt\<close> variables have been used.
\<close>

definition contraction_inv :: "tk list list \<Rightarrow> nat \<Rightarrow> nat list list \<Rightarrow> bool" where
  "contraction_inv L cnt W \<longleftrightarrow>
     sorted_wrt (<) (positions (concat L))
     \<and> (\<forall>k. Var k \<in> set (concat L) \<longrightarrow> k < cnt)
     \<and> distinct (concat L)
     \<and> distinct (concat W)
     \<and> (\<forall>r \<in> set W. r \<noteq> [] \<and> (\<exists>j<length L. \<exists>pre post. L ! j = pre @ map Pos r @ post))
     \<and> set (positions (concat L)) \<subseteq> set (concat W)"

lemma run_survives:
  assumes eq: "pre @ r @ post = pre' @ r' @ post'" and ne: "r \<noteq> []" "r' \<noteq> []"
    and dj: "set r \<inter> set r' = {}"
  shows "\<exists>pre'' post''. pre' @ v # post' = pre'' @ r @ post''"
proof -
  from eq have "\<exists>us. (pre = pre' @ us \<and> us @ r @ post = r' @ post')
      \<or> (pre @ us = pre' \<and> r @ post = us @ r' @ post')"
    by (simp add: append_eq_append_conv2)
  then obtain us where us: "(pre = pre' @ us \<and> us @ r @ post = r' @ post')
      \<or> (pre @ us = pre' \<and> r @ post = us @ r' @ post')" by blast
  then show ?thesis
  proof
    assume a: "pre = pre' @ us \<and> us @ r @ post = r' @ post'"
    then have "\<exists>vs. (us = r' @ vs \<and> vs @ r @ post = post') \<or> (us @ vs = r' \<and> r @ post = vs @ post')"
      by (simp add: append_eq_append_conv2)
    then obtain vs where vs: "(us = r' @ vs \<and> vs @ r @ post = post')
        \<or> (us @ vs = r' \<and> r @ post = vs @ post')" by blast
    then show ?thesis
    proof
      assume "us = r' @ vs \<and> vs @ r @ post = post'"
      then have "pre' @ v # post' = (pre' @ v # vs) @ r @ post" by auto
      then show ?thesis by blast
    next
      assume b: "us @ vs = r' \<and> r @ post = vs @ post'"
      show ?thesis
      proof (cases vs)
        case Nil
        with b have "pre' @ v # post' = (pre' @ [v]) @ r @ post" by simp
        then show ?thesis by blast
      next
        case (Cons x xs)
        with b have "x \<in> set r'" by auto
        moreover from b Cons ne(1) have "x \<in> set r" by (cases r) auto
        ultimately show ?thesis using dj by blast
      qed
    qed
  next
    assume a: "pre @ us = pre' \<and> r @ post = us @ r' @ post'"
    then have "\<exists>vs. (r = us @ vs \<and> vs @ post = r' @ post') \<or> (r @ vs = us \<and> post = vs @ r' @ post')"
      by (simp add: append_eq_append_conv2)
    then obtain vs where vs: "(r = us @ vs \<and> vs @ post = r' @ post')
        \<or> (r @ vs = us \<and> post = vs @ r' @ post')" by blast
    then show ?thesis
    proof
      assume b: "r = us @ vs \<and> vs @ post = r' @ post'"
      show ?thesis
      proof (cases vs)
        case Nil
        with a b have "pre' @ v # post' = pre @ r @ (v # post')" by auto
        then show ?thesis by blast
      next
        case (Cons x xs)
        with b have "x \<in> set r" by auto
        moreover from b Cons ne(2) have "x \<in> set r'" by (cases r') auto
        ultimately show ?thesis using dj by blast
      qed
    next
      assume "r @ vs = us \<and> post = vs @ r' @ post'"
      with a have "pre' @ v # post' = pre @ r @ (vs @ v # post')" by auto
      then show ?thesis by blast
    qed
  qed
qed

lemma concat_update:
  assumes "j < length L"
  shows "concat (L[j := x]) = concat (take j L) @ x @ concat (drop (Suc j) L)"
proof -
  have "j < length (L[j := x])" using assms by simp
  from concat_nth_split [OF this] show ?thesis using assms by simp
qed

lemma inv_step:
  assumes inv: "contraction_inv L cnt (r # W)"
  shows "\<exists>j0 pre post. j0 < length L \<and> L ! j0 = pre @ map Pos r @ post
           \<and> contraction_inv (L[j0 := pre @ Var cnt # post]) (Suc cnt) W"
proof -
  from inv have s: "sorted_wrt (<) (positions (concat L))"
    and v: "\<forall>k. Var k \<in> set (concat L) \<longrightarrow> k < cnt"
    and d: "distinct (concat L)"
    and dw: "distinct (concat (r # W))"
    and occ: "\<forall>r' \<in> set (r # W). r' \<noteq> [] \<and> (\<exists>j<length L. \<exists>pre post. L ! j = pre @ map Pos r' @ post)"
    and sub: "set (positions (concat L)) \<subseteq> set (concat (r # W))"
    unfolding contraction_inv_def by blast+
  from occ obtain j0 pre post where j0: "j0 < length L" and at: "L ! j0 = pre @ map Pos r @ post"
    and r: "r \<noteq> []"
    by auto
  let ?A = "concat (take j0 L)" and ?B = "concat (drop (Suc j0) L)"
  let ?L' = "L[j0 := pre @ Var cnt # post]"
  have cl: "concat L = ?A @ (pre @ map Pos r @ post) @ ?B"
    using concat_nth_split [OF j0] at by simp
  have cl': "concat ?L' = ?A @ (pre @ Var cnt # post) @ ?B"
    using j0 by (rule concat_update)
  have fresh: "Var cnt \<notin> set (concat L)" using v by auto
  have s': "sorted_wrt (<) (positions (concat ?L'))"
    using s unfolding cl cl' by (auto simp: sorted_wrt_append)
  have v': "\<forall>k. Var k \<in> set (concat ?L') \<longrightarrow> k < Suc cnt"
  proof (intro allI impI)
    fix k assume "Var k \<in> set (concat ?L')"
    then have "k = cnt \<or> Var k \<in> set (concat L)" unfolding cl cl' by auto
    then show "k < Suc cnt" using v by auto
  qed
  have d': "distinct (concat ?L')"
    using d fresh unfolding cl cl' by auto
  have dw': "distinct (concat W)" using dw by simp
  have occ': "r' \<noteq> [] \<and> (\<exists>j<length ?L'. \<exists>pre post. ?L' ! j = pre @ map Pos r' @ post)"
    if r': "r' \<in> set W" for r'
  proof -
    from occ r' obtain j p q where j: "j < length L" "L ! j = p @ map Pos r' @ q" and ne: "r' \<noteq> []"
      by auto
    have dj: "set r \<inter> set r' = {}" using dw r' by auto
    show ?thesis
    proof (cases "j = j0")
      case False
      then have "?L' ! j = p @ map Pos r' @ q" using j by simp
      then show ?thesis using ne j(1) by auto
    next
      case True
      then have "p @ map Pos r' @ q = pre @ map Pos r @ post" using j(2) at by simp
      moreover have "set (map Pos r') \<inter> set (map Pos r) = {}" using dj by auto
      ultimately have "\<exists>p' q'. pre @ Var cnt # post = p' @ map Pos r' @ q'"
        using ne r by (intro run_survives [where r' = "map Pos r" and post = q and pre = p]) simp_all
      then obtain p' q' where "pre @ Var cnt # post = p' @ map Pos r' @ q'" by blast
      then have "?L' ! j0 = p' @ map Pos r' @ q'" using j0 by simp
      then have "\<exists>j<length ?L'. \<exists>pre post. ?L' ! j = pre @ map Pos r' @ post"
        using j0 by (intro exI [of _ j0]) auto
      then show ?thesis using ne by simp
    qed
  qed
  have sub': "set (positions (concat ?L')) \<subseteq> set (concat W)"
  proof
    fix p assume "p \<in> set (positions (concat ?L'))"
    then have in': "Pos p \<in> set ?A \<union> set pre \<union> set post \<union> set ?B"
      unfolding cl' by (auto simp: set_positions)
    then have "Pos p \<in> set (concat L)" unfolding cl by auto
    then have "p \<in> set (concat (r # W))" using sub by (auto simp: set_positions)
    moreover have "p \<notin> set r"
    proof
      assume "p \<in> set r"
      then have "Pos p \<in> set (map Pos r)" by simp
      then show False using in' d unfolding cl by auto
    qed
    ultimately show "p \<in> set (concat W)" by simp
  qed
  have "contraction_inv ?L' (Suc cnt) W"
    unfolding contraction_inv_def using s' v' d' dw' occ' sub' by blast
  with j0 at show ?thesis by blast
qed

text \<open>
  The contraction as the specification words it, on token sequences: for the runs of
  positions of the right-hand-side arguments, in order, the run of position tokens is
  replaced as a whole by the next variable wherever it stands as a run of whole tokens in a
  left-hand-side argument; nothing else is changed.
\<close>

fun contract_tokens :: "nat list list \<Rightarrow> nat \<Rightarrow> tk list list \<Rightarrow> tk list list" where
  "contract_tokens [] cnt L = L"
| "contract_tokens (r # W) cnt L =
     contract_tokens W (Suc cnt) (map (subst_run (map Pos r) (Var cnt)) L)"

lemma contract_tokens_append:
  "contract_tokens (rs @ W) cnt L = contract_tokens W (cnt + length rs) (contract_tokens rs cnt L)"
  by (induction rs arbitrary: cnt L) simp_all

lemma distinct_concat_nth:
  assumes d: "distinct (concat L)" and j: "j < length L" and j0: "j0 < length L" and ne: "j \<noteq> j0"
  shows "set (L ! j) \<inter> set (L ! j0) = {}"
proof -
  have *: "set (L ! a) \<inter> set (L ! b) = {}" if ab: "a < b" and b: "b < length L" for a b
  proof -
    have "distinct (concat (take b L) @ L ! b @ concat (drop (Suc b) L))"
      using d concat_nth_split [OF b] by simp
    then have "set (concat (take b L)) \<inter> set (L ! b) = {}" by auto
    moreover have "L ! a \<in> set (take b L)" using ab b by (rule nth_in_take)
    ultimately show ?thesis by auto
  qed
  show ?thesis
  proof (cases "j < j0")
    case True
    then show ?thesis using * [OF True j0] by simp
  next
    case False
    then have "j0 < j" using ne by simp
    then show ?thesis using * [OF _ j, of j0] by auto
  qed
qed

lemma subst_step:
  assumes d: "distinct (concat L)" and j0: "j0 < length L" and at: "L ! j0 = pre @ run @ post"
    and r: "run \<noteq> []"
  shows "map (subst_run run v) L = L[j0 := pre @ v # post]"
proof (rule nth_equalityI)
  show "length (map (subst_run run v) L) = length (L[j0 := pre @ v # post])" by simp
next
  fix j assume "j < length (map (subst_run run v) L)"
  then have j: "j < length L" by simp
  show "map (subst_run run v) L ! j = L[j0 := pre @ v # post] ! j"
  proof (cases "j = j0")
    case True
    have "distinct (concat (take j0 L) @ L ! j0 @ concat (drop (Suc j0) L))"
      using d concat_nth_split [OF j0] by simp
    then have "distinct (L ! j0)" by simp
    then have "distinct (pre @ run @ post)" unfolding at .
    then have "subst_run run v (pre @ run @ post) = pre @ v # post"
      using r by (intro subst_run_found)
    then show ?thesis using True j0 at by simp
  next
    case False
    have "hd run \<in> set (L ! j0)" using at r by (cases run) simp_all
    then have "hd run \<notin> set (L ! j)"
      using distinct_concat_nth [OF d j j0 False] by auto
    then have "subst_run run v (L ! j) = L ! j" using r by (rule subst_run_absent)
    then show ?thesis using False j by simp
  qed
qed

lemma contract_args:
  "contraction_inv L cnt (rs @ W) \<Longrightarrow>
   \<exists>L'. fold (\<lambda>i st. fold (contract_at i) [0..<length L] st) [length dn..<length dn + length rs]
          (map rend L, dn @ map (\<lambda>r. rend (map Pos r)) rs, cnt)
        = (map rend L', dn @ map (\<lambda>k. tkstr (Var k)) [cnt..<cnt + length rs], cnt + length rs)
      \<and> contraction_inv L' (cnt + length rs) W \<and> length L' = length L
      \<and> L' = contract_tokens rs cnt L"
proof (induction rs arbitrary: L cnt dn)
  case Nil
  then show ?case by auto
next
  case (Cons r rs)
  let ?pa = "dn @ map (\<lambda>r. rend (map Pos r)) (r # rs)"
  let ?x = "tkstr (Var cnt)"
  from Cons.prems have inv: "contraction_inv L cnt (r # (rs @ W))" by simp
  then have s: "sorted_wrt (<) (positions (concat L))"
    and v: "\<forall>k. Var k \<in> set (concat L) \<longrightarrow> k < cnt"
    and d: "distinct (concat L)"
    and r: "r \<noteq> []"
    unfolding contraction_inv_def by simp_all
  from inv_step [OF inv] obtain j0 pre post where j0: "j0 < length L"
    and at: "L ! j0 = pre @ map Pos r @ post"
    and inv1: "contraction_inv (L[j0 := pre @ Var cnt # post]) (Suc cnt) (rs @ W)"
    by (elim exE conjE)
  let ?L1 = "L[j0 := pre @ Var cnt # post]"
  have "map (subst_run (map Pos r) (Var cnt)) L = ?L1"
    using d j0 at by (rule subst_step) (simp add: r)
  then have L1: "contract_tokens (r # rs) cnt L = contract_tokens rs (Suc cnt) ?L1" by simp
  have pa: "?pa ! length dn = rend (map Pos r)" "length dn < length ?pa" by simp_all
  have step: "fold (contract_at (length dn)) [0..<length L] (map rend L, ?pa, cnt)
      = (map rend ?L1, ?pa[length dn := ?x], cnt + 1)"
    using s v d j0 at r pa by (rule contract_arg)
  have upd: "?pa[length dn := ?x] = (dn @ [?x]) @ map (\<lambda>r. rend (map Pos r)) rs"
    by (simp add: list_update_append)
  from Cons.IH [OF inv1, of "dn @ [?x]"] obtain L' where
    rest: "fold (\<lambda>i st. fold (contract_at i) [0..<length ?L1] st)
             [length (dn @ [?x])..<length (dn @ [?x]) + length rs]
             (map rend ?L1, (dn @ [?x]) @ map (\<lambda>r. rend (map Pos r)) rs, Suc cnt)
           = (map rend L', (dn @ [?x]) @ map (\<lambda>k. tkstr (Var k)) [Suc cnt..<Suc cnt + length rs],
              Suc cnt + length rs)"
    and inv': "contraction_inv L' (Suc cnt + length rs) W" and len: "length L' = length ?L1"
    and ex: "L' = contract_tokens rs (Suc cnt) ?L1"
    by (elim exE conjE)
  have "[length dn..<length dn + length (r # rs)]
      = length dn # [Suc (length dn)..<length dn + length (r # rs)]"
    by (rule upt_conv_Cons) simp
  then have range: "[length dn..<length dn + length (r # rs)]
      = length dn # [length (dn @ [?x])..<length (dn @ [?x]) + length rs]"
    by simp
  have "[cnt..<cnt + length (r # rs)] = cnt # [Suc cnt..<cnt + length (r # rs)]"
    by (rule upt_conv_Cons) simp
  then have vars: "(dn @ [?x]) @ map (\<lambda>k. tkstr (Var k)) [Suc cnt..<Suc cnt + length rs]
      = dn @ map (\<lambda>k. tkstr (Var k)) [cnt..<cnt + length (r # rs)]"
    by simp
  have "fold (\<lambda>i st. fold (contract_at i) [0..<length L] st) [length dn..<length dn + length (r # rs)]
          (map rend L, ?pa, cnt)
      = fold (\<lambda>i st. fold (contract_at i) [0..<length L] st)
          [length (dn @ [?x])..<length (dn @ [?x]) + length rs]
          (fold (contract_at (length dn)) [0..<length L] (map rend L, ?pa, cnt))"
    unfolding range by simp
  also have "\<dots> = (map rend L', (dn @ [?x]) @ map (\<lambda>k. tkstr (Var k)) [Suc cnt..<Suc cnt + length rs],
              Suc cnt + length rs)"
    unfolding step upd using rest by simp
  finally have "fold (\<lambda>i st. fold (contract_at i) [0..<length L] st)
          [length dn..<length dn + length (r # rs)] (map rend L, ?pa, cnt)
      = (map rend L', dn @ map (\<lambda>k. tkstr (Var k)) [cnt..<cnt + length (r # rs)],
         cnt + length (r # rs))"
    unfolding vars by simp
  moreover have "contraction_inv L' (cnt + length (r # rs)) W" using inv' by simp
  moreover have "length L' = length L" using len by simp
  moreover have "L' = contract_tokens (r # rs) cnt L" using ex L1 by (simp only:)
  ultimately show ?case by (intro exI [of _ L'] conjI)
qed

lemma contract_pred_tokens:
  assumes "contraction_inv L cnt (rs @ W)"
  shows "\<exists>L'. contract_pred (map rend L, map (\<lambda>r. rend (map Pos r)) rs, cnt)
          = (map rend L', map (\<lambda>k. tkstr (Var k)) [cnt..<cnt + length rs], cnt + length rs)
        \<and> contraction_inv L' (cnt + length rs) W \<and> length L' = length L
        \<and> L' = contract_tokens rs cnt L"
proof -
  from contract_args [OF assms, of "[]"] obtain L' where
    1: "fold (\<lambda>i st. fold (contract_at i) [0..<length L] st) [length ([] :: string list)..<length ([] :: string list) + length rs]
          (map rend L, [] @ map (\<lambda>r. rend (map Pos r)) rs, cnt)
        = (map rend L', [] @ map (\<lambda>k. tkstr (Var k)) [cnt..<cnt + length rs], cnt + length rs)"
    and 2: "contraction_inv L' (cnt + length rs) W" and 3: "length L' = length L"
    and 4: "L' = contract_tokens rs cnt L"
    by (elim exE conjE)
  have "contract_pred (map rend L, map (\<lambda>r. rend (map Pos r)) rs, cnt)
      = fold (\<lambda>i st. fold (contract_at i) [0..<length L] st) [0..<length rs]
          (map rend L, map (\<lambda>r. rend (map Pos r)) rs, cnt)"
    by (simp add: contract_pred_def)
  also have "\<dots> = (map rend L', map (\<lambda>k. tkstr (Var k)) [cnt..<cnt + length rs], cnt + length rs)"
    using 1 by simp
  finally show ?thesis using 2 3 4 by (intro exI [of _ L'] conjI)
qed

lemma contract_rhs_tokens:
  assumes "list_all2 (\<lambda>p rs. args p = map (\<lambda>r. rend (map Pos r)) rs) ps rss"
  shows "contraction_inv L cnt (concat rss) \<Longrightarrow>
         \<exists>L' ps'. contract_rhs ps (map rend L) cnt = (map rend L', ps', cnt + length (concat rss))
           \<and> contraction_inv L' (cnt + length (concat rss)) [] \<and> length L' = length L
           \<and> concat (map args ps') = map (\<lambda>k. tkstr (Var k)) [cnt..<cnt + length (concat rss)]
           \<and> map name ps' = map name ps
           \<and> map (\<lambda>p. length (args p)) ps' = map (\<lambda>p. length (args p)) ps
           \<and> L' = contract_tokens (concat rss) cnt L"
  using assms
proof (induction ps rss arbitrary: L cnt rule: list_all2_induct)
  case Nil
  then have "contract_rhs [] (map rend L) cnt = (map rend L, [], cnt + length (concat ([] :: nat list list list)))
           \<and> contraction_inv L (cnt + length (concat ([] :: nat list list list))) [] \<and> length L = length L
           \<and> concat (map args ([] :: predicate list))
               = map (\<lambda>k. tkstr (Var k)) [cnt..<cnt + length (concat ([] :: nat list list list))]
           \<and> map name ([] :: predicate list) = map name ([] :: predicate list)
           \<and> map (\<lambda>p. length (args p)) ([] :: predicate list) = map (\<lambda>p. length (args p)) ([] :: predicate list)
           \<and> L = contract_tokens (concat ([] :: nat list list list)) cnt L"
    by simp
  then show ?case by (intro exI [of _ L] exI [of _ "[]"])
next
  case (Cons p ps rs rss)
  from Cons.prems have inv: "contraction_inv L cnt (rs @ concat rss)" by simp
  from contract_pred_tokens [OF inv] obtain L1 where
    1: "contract_pred (map rend L, map (\<lambda>r. rend (map Pos r)) rs, cnt)
          = (map rend L1, map (\<lambda>k. tkstr (Var k)) [cnt..<cnt + length rs], cnt + length rs)"
    and inv1: "contraction_inv L1 (cnt + length rs) (concat rss)" and len1: "length L1 = length L"
    and ex1: "L1 = contract_tokens rs cnt L"
    by (elim exE conjE)
  from Cons.IH [OF inv1] obtain L' ps' where
    2: "contract_rhs ps (map rend L1) (cnt + length rs)
          = (map rend L', ps', cnt + length rs + length (concat rss))"
    and inv': "contraction_inv L' (cnt + length rs + length (concat rss)) []"
    and len': "length L' = length L1"
    and vs: "concat (map args ps')
          = map (\<lambda>k. tkstr (Var k)) [cnt + length rs..<cnt + length rs + length (concat rss)]"
    and nm: "map name ps' = map name ps"
    and ar: "map (\<lambda>p. length (args p)) ps' = map (\<lambda>p. length (args p)) ps"
    and ex': "L' = contract_tokens (concat rss) (cnt + length rs) L1"
    by (elim exE conjE)
  let ?p' = "p\<lparr>args := map (\<lambda>k. tkstr (Var k)) [cnt..<cnt + length rs]\<rparr>"
  have ap: "args p = map (\<lambda>r. rend (map Pos r)) rs" by (rule Cons.hyps(1))
  have "contract_rhs (p # ps) (map rend L) cnt
      = (case contract_pred (map rend L, args p, cnt) of
           (la', pa', cnt') \<Rightarrow>
             (case contract_rhs ps la' cnt' of
                (la'', ps', cnt'') \<Rightarrow> (la'', p\<lparr>args := pa'\<rparr> # ps', cnt'')))"
    by (rule contract_rhs.simps(2))
  also have "\<dots> = (map rend L', ?p' # ps', cnt + length rs + length (concat rss))"
    unfolding ap 1 by (simp only: prod.case 2)
  finally have res: "contract_rhs (p # ps) (map rend L) cnt
      = (map rend L', ?p' # ps', cnt + length (concat (rs # rss)))"
    by (simp add: add.assoc)
  have "[cnt..<cnt + length rs + length (concat rss)]
      = [cnt..<cnt + length rs] @ [cnt + length rs..<cnt + length rs + length (concat rss)]"
    by (rule upt_add_eq_append) simp
  moreover have "cnt + length (concat (rs # rss)) = cnt + length rs + length (concat rss)"
    by simp
  ultimately have "[cnt..<cnt + length (concat (rs # rss))]
      = [cnt..<cnt + length rs] @ [cnt + length rs..<cnt + length rs + length (concat rss)]"
    by (simp only:)
  then have "map (\<lambda>k. tkstr (Var k)) [cnt..<cnt + length (concat (rs # rss))]
      = map (\<lambda>k. tkstr (Var k)) [cnt..<cnt + length rs] @ concat (map args ps')"
    by (simp only: map_append vs)
  then have vs': "concat (map args (?p' # ps'))
      = map (\<lambda>k. tkstr (Var k)) [cnt..<cnt + length (concat (rs # rss))]"
    by simp
  have "contraction_inv L' (cnt + length (concat (rs # rss))) []"
    using inv' by (simp add: add.assoc)
  moreover have "length L' = length L" using len' len1 by simp
  moreover have "map name (?p' # ps') = map name (p # ps)" using nm by simp
  moreover have "map (\<lambda>p. length (args p)) (?p' # ps') = map (\<lambda>p. length (args p)) (p # ps)"
    using ar Cons.hyps(1) by simp
  moreover have "L' = contract_tokens (concat (rs # rss)) cnt L"
    unfolding ex' ex1 by (simp add: contract_tokens_append)
  ultimately show ?case using res vs'
    by (intro exI [of _ L'] exI [of _ "?p' # ps'"] conjI)
qed

lemma tok_nonneg: "0 \<le> p \<Longrightarrow> tok p = tkstr (Pos (nat p))"
  by (simp add: tok_def tkstr_def str_def)

lemma render_nonneg: "\<forall>p \<in> set r. 0 \<le> p \<Longrightarrow> render r = rend (map Pos (map nat r))"
  by (induction r) (simp_all add: render_def tok_nonneg)

lemma contiguous_above: "contiguous (y # r) \<Longrightarrow> \<forall>e \<in> set r. y < e"
proof (induction r arbitrary: y)
  case Nil
  show ?case by simp
next
  case (Cons z r)
  from Cons.prems have zc: "z = y + 1 \<and> contiguous (z # r)"
    unfolding contiguous.simps(1) .
  from zc have c: "contiguous (z # r)" by (rule conjunct2)
  have z: "z = y + 1" using zc by (rule conjunct1)
  from Cons.IH [OF c] z show ?case by auto
qed

lemma run_prefix:
  "sorted_wrt (<) (x # xs) \<Longrightarrow> contiguous (x # r) \<Longrightarrow> set r \<subseteq> set xs \<Longrightarrow>
   prefix (x # r) (hd (runs_from x xs))"
proof (induction r arbitrary: x xs)
  case Nil
  obtain h where "hd (runs_from x xs) = x # h"
    using runs_from_hd [of x xs] by (cases "hd (runs_from x xs)") auto
  then show ?case by simp
next
  case (Cons y r)
  have yc: "y = x + 1 \<and> contiguous (y # r)"
    using Cons.prems(2) unfolding contiguous.simps(1) .
  then have y: "y = x + 1" by (rule conjunct1)
  from yc have c: "contiguous (y # r)" by (rule conjunct2)
  have "y \<in> set xs" using Cons.prems(3) by simp
  then obtain z zs where xs: "xs = z # zs" by (cases xs) auto
  have "x < z" "\<forall>e \<in> set zs. z < e" using Cons.prems(1) xs by auto
  with \<open>y \<in> set xs\<close> y xs have zy: "z = y" by auto
  have ab: "\<forall>e \<in> set r. y < e" using c by (rule contiguous_above)
  have sub: "set r \<subseteq> set zs"
  proof
    fix e assume e: "e \<in> set r"
    then have "e \<in> set xs" using Cons.prems(3) by auto
    moreover have "e \<noteq> y" using ab e by auto
    ultimately show "e \<in> set zs" using xs zy by simp
  qed
  have "sorted_wrt (<) (y # zs)" using Cons.prems(1) xs zy by simp
  from Cons.IH [OF this c sub] have p: "prefix (y # r) (hd (runs_from y zs))" .
  obtain r1 rs where r1: "runs_from y zs = r1 # rs"
    using runs_from_nonempty [of y zs] by (cases "runs_from y zs") auto
  have "runs_from x xs = (x # r1) # rs"
    using xs zy y r1 by simp
  then show ?case using p r1 by simp
qed

lemma run_occurs:
  "sorted_wrt (<) (x # xs) \<Longrightarrow> contiguous r \<Longrightarrow> r \<noteq> [] \<Longrightarrow> set r \<subseteq> set (x # xs) \<Longrightarrow>
   \<exists>R \<in> set (runs_from x xs). \<exists>pre post. R = pre @ r @ post"
proof (induction xs arbitrary: x)
  case Nil
  then obtain a r' where r: "r = a # r'" by (cases r) auto
  have "a = x" using Nil.prems(4) r by simp
  moreover have "r' = []"
  proof (cases r')
    case Nil
    then show ?thesis .
  next
    case (Cons b r'')
    have "a < b" using contiguous_above [of a r'] Nil.prems(2) r Cons by simp
    moreover have "b = x" using Nil.prems(4) r Cons by simp
    ultimately show ?thesis using \<open>a = x\<close> by simp
  qed
  ultimately have rx: "r = [x]" using r by simp
  have "\<exists>pre post. [x] = pre @ [x] @ post"
    by (intro exI [of _ "[]"]) simp
  then show ?case unfolding rx by simp
next
  case (Cons y ys)
  obtain a r' where r: "r = a # r'" using Cons.prems(3) by (cases r) auto
  have ab: "\<forall>e \<in> set r'. a < e" using Cons.prems(2) r contiguous_above by blast
  show ?case
  proof (cases "a = x")
    case True
    have "set r' \<subseteq> set (y # ys)"
    proof
      fix e assume e: "e \<in> set r'"
      then have "e \<in> set (x # y # ys)" using Cons.prems(4) r by auto
      moreover have "e \<noteq> x" using ab e True by auto
      ultimately show "e \<in> set (y # ys)" by simp
    qed
    then have "prefix (x # r') (hd (runs_from x (y # ys)))"
      using Cons.prems(1,2) r True by (intro run_prefix) simp_all
    then obtain post where "hd (runs_from x (y # ys)) = [] @ r @ post"
      using r True by (auto simp: prefix_def)
    moreover have "hd (runs_from x (y # ys)) \<in> set (runs_from x (y # ys))"
      using runs_from_nonempty [of x "y # ys"] by (intro hd_in_set)
    ultimately show ?thesis by metis
  next
    case False
    then have "a \<in> set (y # ys)" using Cons.prems(4) r by auto
    then have "x < a" using Cons.prems(1) by auto
    have sub: "set r \<subseteq> set (y # ys)"
    proof
      fix e assume e: "e \<in> set r"
      then have "x < e" using ab r \<open>x < a\<close> by auto
      moreover have "e \<in> set (x # y # ys)" using Cons.prems(4) e by auto
      ultimately show "e \<in> set (y # ys)" by auto
    qed
    have "sorted_wrt (<) (y # ys)" using Cons.prems(1) by simp
    from Cons.IH [OF this Cons.prems(2,3) sub] obtain R pre post where
      R: "R \<in> set (runs_from y ys)" "R = pre @ r @ post" by blast
    obtain r1 rs where r1: "runs_from y ys = r1 # rs"
      using runs_from_nonempty [of y ys] by (cases "runs_from y ys") auto
    show ?thesis
    proof (cases "y = x + 1")
      case notgap: True
      then have rf: "runs_from x (y # ys) = (x # r1) # rs" using r1 by simp
      show ?thesis
      proof (cases "R = r1")
        case True
        then have "x # r1 = (x # pre) @ r @ post" using R(2) by simp
        then show ?thesis unfolding rf by (metis list.set_intros(1))
      next
        case False
        then have "R \<in> set rs" using R(1) r1 by simp
        then show ?thesis unfolding rf using R(2) by (metis list.set_intros(2))
      qed
    next
      case gap: False
      then have "runs_from x (y # ys) = [x] # runs_from y ys" by simp
      then show ?thesis using R by (metis list.set_intros(2))
    qed
  qed
qed

lemma runs_concat: "concat (runs xs) = xs"
  by (cases xs) (simp_all add: runs_def runs_from_concat)

lemma runs_members:
  assumes "r \<in> set (runs xs)"
  shows "r \<noteq> [] \<and> contiguous r \<and> set r \<subseteq> set xs"
proof -
  from assms obtain x xs' where xs: "xs = x # xs'" by (cases xs) (auto simp: runs_def)
  have "list_all (\<lambda>r. r \<noteq> [] \<and> contiguous r) (runs xs)"
    using runs_from_contiguous [of x xs'] by (simp add: xs runs_def)
  then have "r \<noteq> [] \<and> contiguous r" using assms by (simp add: list_all_iff)
  moreover have "set r \<subseteq> set (concat (runs xs))" using assms by auto
  ultimately show ?thesis by (simp add: runs_concat)
qed

lemma positions_Pos: "positions (map Pos xs) = xs"
  by (induction xs) simp_all

lemma no_positions: "positions ts = [] \<Longrightarrow> ts = map Var (map tk_num ts)"
proof (induction ts)
  case Nil
  show ?case by simp
next
  case (Cons t ts)
  then show ?case by (cases t) simp_all
qed

lemma var_text_chars: "CHR ''Y'' \<notin> set (rend (map Var vs))"
proof (induction vs)
  case Nil
  show ?case by simp
next
  case (Cons v vs)
  have "\<not> is_digit (CHR ''Y'')" by (simp add: is_digit_def)
  then have "CHR ''Y'' \<notin> set (digits v)" using digits_all_digit [of v] by blast
  then show ?case using Cons by (simp add: tkstr_def)
qed

section \<open>The rule of an internal node\<close>

text \<open>
  The token sequences of the arguments that \<open>findArgs\<close> gives a span, the runs of positions
  of the daughters' arguments in the order of the loops of lines 155-158, and the spans of
  the daughters of a node.
\<close>

definition lhs_tokens :: "int list \<Rightarrow> tk list list" where
  "lhs_tokens S = (if S = [] then [[]] else map (map (\<lambda>p. Pos (nat p))) (runs S))"

definition rhs_runs :: "int list list \<Rightarrow> nat list list" where
  "rhs_runs Ds = concat (map (\<lambda>D. map (map nat) (runs D)) Ds)"

definition daughter_spans :: "store \<Rightarrow> node \<Rightarrow> int list list" where
  "daughter_spans st nd = map (\<lambda>d. strID (deref st d)) (daughters nd)"

lemma render_tokens: "\<forall>p \<in> set r. 0 \<le> p \<Longrightarrow> render r = rend (map (\<lambda>p. Pos (nat p)) r)"
  using render_nonneg [of r] by (simp add: comp_def)

lemma findArgs_tokens:
  assumes "\<forall>x \<in> set S. 0 \<le> x"
  shows "findArgs S = map rend (lhs_tokens S)"
proof (cases "S = []")
  case True
  then show ?thesis by (simp add: findArgs_def lhs_tokens_def)
next
  case False
  have "render R = rend (map (\<lambda>p. Pos (nat p)) R)" if "R \<in> set (runs S)" for R
  proof (rule render_tokens)
    have "set R \<subseteq> set S" using runs_members [OF that] by simp
    then show "\<forall>p \<in> set R. 0 \<le> p" using assms by blast
  qed
  then have "map render (runs S) = map (\<lambda>R. rend (map (\<lambda>p. Pos (nat p)) R)) (runs S)"
    by simp
  then show ?thesis using False by (simp add: findArgs_runs lhs_tokens_def comp_def)
qed

lemma findArgs_runs_tokens:
  assumes "\<forall>x \<in> set D. 0 \<le> x" and "D \<noteq> []"
  shows "findArgs D = map (\<lambda>r. rend (map Pos r)) (map (map nat) (runs D))"
proof -
  have "render R = rend (map Pos (map nat R))" if "R \<in> set (runs D)" for R
  proof (rule render_nonneg)
    have "set R \<subseteq> set D" using runs_members [OF that] by simp
    then show "\<forall>p \<in> set R. 0 \<le> p" using assms(1) by blast
  qed
  then have "map render (runs D) = map (\<lambda>R. rend (map Pos (map nat R))) (runs D)"
    by simp
  then show ?thesis using assms(2) by (simp add: findArgs_runs comp_def)
qed

lemma concat_lhs_tokens: "concat (lhs_tokens S) = map (\<lambda>p. Pos (nat p)) S"
proof (cases "S = []")
  case True
  then show ?thesis by (simp add: lhs_tokens_def)
next
  case False
  have "concat (map (map (\<lambda>p. Pos (nat p))) (runs S)) = map (\<lambda>p. Pos (nat p)) (concat (runs S))"
    by (simp add: map_concat)
  then show ?thesis using False by (simp add: lhs_tokens_def runs_concat)
qed

lemma positions_map_Pos: "positions (map (\<lambda>p. Pos (f p)) xs) = map f xs"
  by (induction xs) simp_all

lemma concat_rhs_runs: "concat (rhs_runs Ds) = map nat (concat Ds)"
proof (induction Ds)
  case Nil
  show ?case by (simp add: rhs_runs_def)
next
  case (Cons D Ds)
  have "concat (map (map nat) (runs D)) = map nat (concat (runs D))"
    by (simp add: map_concat)
  then have "concat (map (map nat) (runs D)) = map nat D" by (simp add: runs_concat)
  then show ?case using Cons by (simp add: rhs_runs_def)
qed

lemma initial_contraction_inv:
  assumes S: "sorted_wrt (<) S" and nn: "\<forall>x \<in> set S. 0 \<le> x"
    and D: "\<forall>D \<in> set Ds. D \<noteq> []" and cover: "mset (concat Ds) = mset S"
  shows "contraction_inv (lhs_tokens S) 0 (rhs_runs Ds)"
proof (cases "S = []")
  case True
  then have "concat Ds = []" using cover by simp
  then have "Ds = []" using D by (cases Ds) auto
  then show ?thesis using True by (simp add: contraction_inv_def lhs_tokens_def rhs_runs_def)
next
  case False
  then obtain x xs where Sx: "S = x # xs" by (cases S) auto
  have setD: "set (concat Ds) = set S" using cover by (rule mset_eq_setD)
  have dS: "distinct S" using S by (simp add: strict_sorted_iff)
  have dD: "distinct (concat Ds)" using mset_eq_imp_distinct_iff [OF cover] dS by (simp only:)
  have inj: "inj_on nat (set S)"
  proof (rule inj_onI)
    fix a b assume "a \<in> set S" "b \<in> set S" "nat a = nat b"
    then show "a = b" using nn by (simp add: nat_eq_iff)
  qed
  have "sorted_wrt (\<lambda>a b. nat a < nat b) S"
    using S
  proof (rule sorted_wrt_mono_rel [rotated])
    fix a b assume "a \<in> set S" "b \<in> set S" "a < b"
    then have "0 \<le> a" "a < b" using nn by simp_all
    then show "nat a < nat b" by arith
  qed
  then have 1: "sorted_wrt (<) (positions (concat (lhs_tokens S)))"
    by (simp add: concat_lhs_tokens positions_map_Pos sorted_wrt_map)
  have 2: "\<forall>k. Var k \<in> set (concat (lhs_tokens S)) \<longrightarrow> k < 0"
    by (auto simp: concat_lhs_tokens)
  have "inj_on (\<lambda>p. Pos (nat p)) (set S)"
    using inj by (auto simp: inj_on_def)
  then have 3: "distinct (concat (lhs_tokens S))"
    using dS by (simp add: concat_lhs_tokens distinct_map)
  have 4: "distinct (concat (rhs_runs Ds))"
    using dD inj setD by (simp add: concat_rhs_runs distinct_map)
  have 5: "r \<noteq> [] \<and> (\<exists>j<length (lhs_tokens S). \<exists>pre post. lhs_tokens S ! j = pre @ map Pos r @ post)"
    if "r \<in> set (rhs_runs Ds)" for r
  proof -
    from that obtain D0 r0 where D0: "D0 \<in> set Ds" and r0: "r0 \<in> set (runs D0)" and r: "r = map nat r0"
      by (auto simp: rhs_runs_def)
    have m: "r0 \<noteq> []" "contiguous r0" "set r0 \<subseteq> set D0"
      using runs_members [OF r0] by simp_all
    have "set D0 \<subseteq> set (concat Ds)" using D0 by auto
    then have sub: "set r0 \<subseteq> set (x # xs)" using m(3) setD Sx by simp
    have "sorted_wrt (<) (x # xs)" using S Sx by simp
    from run_occurs [OF this m(2) m(1) sub] obtain R pre post where
      R: "R \<in> set (runs_from x xs)" and eq: "R = pre @ r0 @ post" by (elim bexE exE)
    have "R \<in> set (runs S)" using R Sx by (simp add: runs_def)
    then obtain j where j: "j < length (runs S)" and Rj: "runs S ! j = R"
      by (auto simp: in_set_conv_nth)
    have "lhs_tokens S ! j = map (\<lambda>p. Pos (nat p)) R"
      using j Rj False by (simp add: lhs_tokens_def)
    also have "\<dots> = map (\<lambda>p. Pos (nat p)) pre @ map Pos r @ map (\<lambda>p. Pos (nat p)) post"
      by (simp add: eq r comp_def)
    finally have "lhs_tokens S ! j = map (\<lambda>p. Pos (nat p)) pre @ map Pos r @ map (\<lambda>p. Pos (nat p)) post" .
    moreover have "j < length (lhs_tokens S)" using j False by (simp add: lhs_tokens_def)
    ultimately have "j < length (lhs_tokens S)
        \<and> (\<exists>pre post. lhs_tokens S ! j = pre @ map Pos r @ post)"
      by (intro conjI exI)
    then have "\<exists>j<length (lhs_tokens S). \<exists>pre post. lhs_tokens S ! j = pre @ map Pos r @ post"
      by (rule exI)
    moreover have "r \<noteq> []" using m(1) r by simp
    ultimately show ?thesis by (intro conjI)
  qed
  have 6: "set (positions (concat (lhs_tokens S))) \<subseteq> set (concat (rhs_runs Ds))"
    using setD by (simp add: concat_lhs_tokens positions_map_Pos concat_rhs_runs)
  have occ: "\<forall>r \<in> set (rhs_runs Ds). r \<noteq> []
      \<and> (\<exists>j<length (lhs_tokens S). \<exists>pre post. lhs_tokens S ! j = pre @ map Pos r @ post)"
    using 5 by (intro ballI)
  show ?thesis unfolding contraction_inv_def using 1 2 3 4 occ 6 by (intro conjI)
qed

text \<open>
  \<open>Rule.__init__\<close> on an internal node whose span is strictly increasing and non-negative
  and is exactly covered by the non-empty spans of its daughters: the left-hand side is the
  text of the token-level contraction, every right-hand-side argument is one variable, and
  the names and arities of the right-hand-side predicates are those of the daughters.
\<close>

lemma Rule_init_tokens:
  assumes id: "node_id nd = CHR ''#'' # k"
    and S: "sorted_wrt (<) (strID nd)" and nn: "\<forall>x \<in> set (strID nd). 0 \<le> x"
    and D: "\<forall>D \<in> set (daughter_spans st nd). D \<noteq> []"
    and cover: "mset (concat (daughter_spans st nd)) = mset (strID nd)"
  shows "\<exists>ps. Rule_init st nd
            = Inr \<lparr>lhs = \<lparr>name = label nd,
                          args = map rend (contract_tokens (rhs_runs (daughter_spans st nd)) 0
                                             (lhs_tokens (strID nd)))\<rparr>,
                   rhs = Preds ps,
                   form = Rule_mkform
                            \<lparr>name = label nd,
                             args = map rend (contract_tokens (rhs_runs (daughter_spans st nd)) 0
                                                (lhs_tokens (strID nd)))\<rparr> (Preds ps)\<rparr>
          \<and> concat (map args ps)
              = map (\<lambda>k. tkstr (Var k)) [0..<length (rhs_runs (daughter_spans st nd))]
          \<and> map name ps = map (\<lambda>d. label (deref st d)) (daughters nd)
          \<and> map (\<lambda>p. length (args p)) ps
              = map (\<lambda>d. length (findArgs (strID (deref st d)))) (daughters nd)
          \<and> contraction_inv (contract_tokens (rhs_runs (daughter_spans st nd)) 0
                                (lhs_tokens (strID nd)))
                (length (rhs_runs (daughter_spans st nd))) []"
proof -
  let ?W = "rhs_runs (daughter_spans st nd)"
  let ?L0 = "lhs_tokens (strID nd)"
  let ?r0 = "map (\<lambda>d. \<lparr>name = label (deref st d), args = findArgs (strID (deref st d))\<rparr>)
               (daughters nd)"
  let ?rss = "map (\<lambda>D. map (map nat) (runs D)) (daughter_spans st nd)"
  have W: "concat ?rss = ?W" by (simp add: rhs_runs_def)
  have setD: "set (concat (daughter_spans st nd)) = set (strID nd)"
    using cover by (rule mset_eq_setD)
  have dn: "\<forall>x \<in> set Dx. 0 \<le> x" if "Dx \<in> set (daughter_spans st nd)" for Dx
  proof -
    have "set Dx \<subseteq> set (concat (daughter_spans st nd))" using that by auto
    then show ?thesis using setD nn by blast
  qed
  have la2: "list_all2 (\<lambda>p rs. args p = map (\<lambda>r. rend (map Pos r)) rs) ?r0 ?rss"
  proof (rule list_all2_all_nthI)
    show "length ?r0 = length ?rss" by (simp add: daughter_spans_def)
  next
    fix n assume "n < length ?r0"
    then have n: "n < length (daughters nd)" by simp
    let ?Dn = "strID (deref st (daughters nd ! n))"
    have mem: "?Dn \<in> set (daughter_spans st nd)"
      using n by (simp add: daughter_spans_def)
    have "findArgs ?Dn = map (\<lambda>r. rend (map Pos r)) (map (map nat) (runs ?Dn))"
      using dn [OF mem] D mem by (intro findArgs_runs_tokens) blast+
    then show "args (?r0 ! n) = map (\<lambda>r. rend (map Pos r)) (?rss ! n)"
      using n by (simp add: daughter_spans_def)
  qed
  have inv0: "contraction_inv ?L0 0 (concat ?rss)"
    unfolding W using S nn D cover by (rule initial_contraction_inv)
  from contract_rhs_tokens [OF la2 inv0] obtain L' ps' where
    res: "contract_rhs ?r0 (map rend ?L0) 0 = (map rend L', ps', 0 + length (concat ?rss))"
    and inv': "contraction_inv L' (0 + length (concat ?rss)) []"
    and vs: "concat (map args ps') = map (\<lambda>k. tkstr (Var k)) [0..<0 + length (concat ?rss)]"
    and nm: "map name ps' = map name ?r0"
    and ar: "map (\<lambda>p. length (args p)) ps' = map (\<lambda>p. length (args p)) ?r0"
    and ex: "L' = contract_tokens (concat ?rss) 0 ?L0"
    by (elim exE conjE)
  have fa: "findArgs (strID nd) = map rend ?L0" using nn by (rule findArgs_tokens)
  have L': "L' = contract_tokens ?W 0 ?L0" using ex unfolding W .
  have res': "contract_rhs ?r0 (findArgs (strID nd)) 0 = (map rend L', ps', length ?W)"
    using res unfolding W fa by simp
  have "Rule_init st nd
      = Inr \<lparr>lhs = \<lparr>name = label nd, args = map rend L'\<rparr>, rhs = Preds ps',
             form = Rule_mkform \<lparr>name = label nd, args = map rend L'\<rparr> (Preds ps')\<rparr>"
    unfolding Rule_init_def id by (simp add: Let_def res')
  moreover have "concat (map args ps') = map (\<lambda>k. tkstr (Var k)) [0..<length ?W]"
    using vs unfolding W by simp
  moreover have "map name ps' = map (\<lambda>d. label (deref st d)) (daughters nd)"
    using nm by (simp add: comp_def)
  moreover have "map (\<lambda>p. length (args p)) ps'
      = map (\<lambda>d. length (findArgs (strID (deref st d)))) (daughters nd)"
    using ar by (simp add: comp_def)
  moreover have "contraction_inv L' (length ?W) []" using inv' unfolding W by simp
  ultimately show ?thesis unfolding L' by (intro exI [of _ ps'] conjI)
qed

lemma contract_tokens_inv:
  assumes "contraction_inv L cnt (rs @ W)"
  shows "contraction_inv (contract_tokens rs cnt L) (cnt + length rs) W
         \<and> length (contract_tokens rs cnt L) = length L"
proof -
  from contract_args [OF assms, of "[]"] obtain L' where
    "contraction_inv L' (cnt + length rs) W" "length L' = length L" "L' = contract_tokens rs cnt L"
    by (elim exE conjE)
  then show ?thesis by simp
qed

lemma contract_tokens_step:
  assumes inv: "contraction_inv L 0 W" and m: "m < length W"
  shows "\<exists>j pre post. j < length L
           \<and> contract_tokens (take m W) 0 L ! j = pre @ map Pos (W ! m) @ post
           \<and> contract_tokens (take (Suc m) W) 0 L
               = (contract_tokens (take m W) 0 L)[j := pre @ Var m # post]"
proof -
  let ?Lm = "contract_tokens (take m W) 0 L"
  have W: "W = take m W @ (W ! m # drop (Suc m) W)" using m by (rule id_take_nth_drop)
  have "contraction_inv L 0 (take m W @ (W ! m # drop (Suc m) W))" using inv W by simp
  from contract_tokens_inv [OF this] have invm: "contraction_inv ?Lm m (W ! m # drop (Suc m) W)"
    and len: "length ?Lm = length L" using m by simp_all
  from inv_step [OF invm] obtain j0 pre post where j0: "j0 < length ?Lm"
    and at: "?Lm ! j0 = pre @ map Pos (W ! m) @ post"
    by (elim exE conjE)
  have d: "distinct (concat ?Lm)" and ne: "W ! m \<noteq> []"
    using invm unfolding contraction_inv_def by simp_all
  have "map (subst_run (map Pos (W ! m)) (Var m)) ?Lm = ?Lm[j0 := pre @ Var m # post]"
    using d j0 at by (rule subst_step) (simp add: ne)
  moreover have "take (Suc m) W = take m W @ [W ! m]" using m by (rule take_Suc_conv_app_nth)
  ultimately have "contract_tokens (take (Suc m) W) 0 L = ?Lm[j0 := pre @ Var m # post]"
    using m by (simp add: contract_tokens_append)
  moreover have "j0 < length L" using j0 len by simp
  ultimately show ?thesis using at by (intro exI [of _ j0] exI [of _ pre] exI [of _ post] conjI)
qed

lemma rend_vars: "rend (map Var vs) = concat (map (\<lambda>v. ''X_'' @ str (int v)) vs)"
  by (induction vs) (simp_all add: tkstr_def str_nat)

lemma var_texts: "map (\<lambda>k. tkstr (Var k)) ks = map (\<lambda>m. ''X_'' @ str (int m)) ks"
  by (simp add: tkstr_def str_nat)

lemma var_texts_distinct: "distinct ks \<Longrightarrow> distinct (map (\<lambda>k. tkstr (Var k)) ks)"
proof -
  have "inj (\<lambda>k. tkstr (Var k))"
  proof (rule injI)
    fix a b assume "tkstr (Var a) = tkstr (Var b)"
    then have "digits a = digits b" by (simp add: tkstr_def)
    then show "a = b" by (rule digits_inj)
  qed
  then have "inj_on (\<lambda>k. tkstr (Var k)) (set ks)" by (rule inj_on_subset) simp
  then show "distinct ks \<Longrightarrow> distinct (map (\<lambda>k. tkstr (Var k)) ks)" by (simp add: distinct_map)
qed

lemma contracted_vars:
  assumes "contraction_inv L N []"
  shows "L = map (map Var) (map (map tk_num) L)
         \<and> distinct (concat (map (map tk_num) L))
         \<and> set (concat (map (map tk_num) L)) \<subseteq> {0..<N}"
proof -
  let ?Lv = "map (map tk_num) L"
  from assms have p: "set (positions (concat L)) \<subseteq> {}" and d: "distinct (concat L)"
    and v: "\<forall>k. Var k \<in> set (concat L) \<longrightarrow> k < N"
    unfolding contraction_inv_def by simp_all
  have "positions (concat L) = []" using p by simp
  then have c: "concat L = map Var (map tk_num (concat L))" by (rule no_positions)
  have each: "l = map Var (map tk_num l)" if "l \<in> set L" for l
  proof (rule no_positions)
    have "set (positions l) \<subseteq> set (positions (concat L))"
      using that by (auto simp: set_positions)
    then show "positions l = []" using p by simp
  qed
  have 1: "L = map (map Var) ?Lv"
  proof -
    have "map (\<lambda>l. map Var (map tk_num l)) L = map (\<lambda>l. l) L"
      using each by (intro map_cong) simp_all
    then show ?thesis by (simp add: comp_def)
  qed
  have cv: "concat ?Lv = map tk_num (concat L)" by (simp add: map_concat)
  have "distinct (map Var (map tk_num (concat L)))" using d c by simp
  then have "distinct (map tk_num (concat L)) \<and> inj_on Var (set (map tk_num (concat L)))"
    by (simp only: distinct_map)
  then have "distinct (map tk_num (concat L))" by (rule conjunct1)
  then have 2: "distinct (concat ?Lv)" unfolding cv .
  have 3: "set (concat ?Lv) \<subseteq> {0..<N}"
  proof
    fix n assume "n \<in> set (concat ?Lv)"
    then have "n \<in> set (map tk_num (concat L))" unfolding cv .
    then have "Var n \<in> Var ` set (map tk_num (concat L))" by (rule imageI)
    then have "Var n \<in> set (map Var (map tk_num (concat L)))" by (simp only: set_map)
    then have "Var n \<in> set (concat L)" using c by (simp only:)
    then show "n \<in> {0..<N}" using v by simp
  qed
  from 1 2 3 show ?thesis by (intro conjI)
qed

section \<open>The spans of the nodes the rules are built from\<close>

text \<open>
  The keys in \<open>nodesval\<close> and \<open>nodes2\<close> stay keys of the tree, and on a built well-formed
  tree every node of \<open>nodes2\<close> (the nodes of the loop of lines 87-98) has, when the
  propagation has returned, the id of its key, a strictly increasing span of non-negative
  positions, daughters with non-empty spans, and a span that the spans of its daughters
  together cover exactly.
\<close>

lemma scan_worklist_keys:
  "set (nodesval w) \<union> set (nodes2 w) \<subseteq> K \<Longrightarrow>
   set (nodesval (scan i w)) \<union> set (nodes2 (scan i w)) \<subseteq> K"
proof (induction i w rule: scan.induct)
  case (1 i w)
  show ?case
  proof (cases "i < length (nodesval w)")
    case False
    then show ?thesis using "1.prems" by (subst scan.simps, subst scan.simps) simp
  next
    case True
    let ?k = "nodesval w ! i"
    let ?nd = "deref (objs w) (Inner ?k)"
    show ?thesis
    proof (cases "allDaughtersHaveStrID (objs w) ?nd")
      case ready: True
      let ?w' = "w\<lparr>objs := set_strID ?k (getStrID (objs w) ?nd) (objs w),
                   nodes2 := nodes2 w @ [?k], nodesval := remove1 ?k (nodesval w)\<rparr>"
      have eq: "scan i w = scan (i + 1) ?w'"
        using True ready by (subst scan.simps) (simp add: Let_def)
      have "?k \<in> set (nodesval w)" using True by simp
      moreover have "set (remove1 ?k (nodesval w)) \<subseteq> set (nodesval w)" by (rule set_remove1_subset)
      ultimately have "set (nodesval ?w') \<union> set (nodes2 ?w') \<subseteq> K"
        using "1.prems" by auto
      then show ?thesis
        unfolding eq by (rule "1.IH"(1) [OF True refl refl ready])
    next
      case notready: False
      have eq: "scan i w = scan (i + 1) w"
        using True notready by (subst scan.simps) (simp add: Let_def)
      show ?thesis
        unfolding eq using "1.prems" by (rule "1.IH"(2) [OF True refl refl notready])
    qed
  qed
qed

lemma passes_worklist_keys:
  "set (nodesval w) \<union> set (nodes2 w) \<subseteq> K \<Longrightarrow>
   set (nodesval ((scan 0 ^^ n) w)) \<union> set (nodes2 ((scan 0 ^^ n) w)) \<subseteq> K"
proof (induction n)
  case 0
  then show ?case by simp
next
  case (Suc n)
  have "set (nodesval ((scan 0 ^^ n) w)) \<union> set (nodes2 ((scan 0 ^^ n) w)) \<subseteq> K"
    using Suc.prems by (rule Suc.IH)
  then have "set (nodesval (scan 0 ((scan 0 ^^ n) w))) \<union> set (nodes2 (scan 0 ((scan 0 ^^ n) w))) \<subseteq> K"
    by (rule scan_worklist_keys)
  then show ?case by simp
qed

lemma rule_preconditions_reached:
  assumes b: "build tree = Inr st" and wf: "well_formed st"
    and p: "propagate \<lparr>nodesval = map fst (nodes st), nodes2 = [], objs = st\<rparr> = Some w"
    and k: "k \<in> set (nodes2 w)"
  shows "node_id (deref (objs w) (Inner k)) = CHR ''#'' # k
       \<and> sorted_wrt (<) (strID (deref (objs w) (Inner k)))
       \<and> (\<forall>x \<in> set (strID (deref (objs w) (Inner k))). 0 \<le> x)
       \<and> (\<forall>D \<in> set (daughter_spans (objs w) (deref (objs w) (Inner k))). D \<noteq> [])
       \<and> mset (concat (daughter_spans (objs w) (deref (objs w) (Inner k))))
           = mset (strID (deref (objs w) (Inner k)))"
proof -
  let ?w0 = "\<lparr>nodesval = map fst (nodes st), nodes2 = [], objs = st\<rparr>"
  have l: "linked st" using b by (rule build_linked)
  have a: "acyclic (mother_rel st)" using wf by (simp add: well_formed_def)
  have "resolved_inv st ?w0" using l by (rule initial_inv)
  from propagate_resolves [OF l wf this] obtain w' where
    "propagate ?w0 = Some w'" and inv': "resolved_inv st w'" and e': "nodesval w' = []"
    by (elim exE conjE)
  then have "w' = w" using p by simp
  then have inv: "resolved_inv st w" and e: "nodesval w = []" using inv' e' by simp_all
  have same: "same_tree st (objs w)"
    and ids: "\<And>k nd. map_of (nodes (objs w)) k = Some nd \<Longrightarrow>
           strID nd = (if k \<in> set (nodesval w) then [] else leaf_span st k)"
    using inv unfolding resolved_inv_def by blast+
  from propagate_passes [OF p] obtain n where n: "w = (scan 0 ^^ n) ?w0" by (elim exE conjE)
  have "set (nodesval ?w0) \<union> set (nodes2 ?w0) \<subseteq> fst ` set (nodes st)" by simp
  then have "set (nodesval w) \<union> set (nodes2 w) \<subseteq> fst ` set (nodes st)"
    unfolding n by (rule passes_worklist_keys)
  then have kk: "k \<in> fst ` set (nodes st)" using k by blast
  from inv_lookup [OF same kk] obtain nd nd' where
    nd: "(k, nd) \<in> set (nodes st)" and m: "map_of (nodes (objs w)) k = Some nd'"
    and nd': "nd' = nd\<lparr>strID := strID nd'\<rparr>" and dr: "deref (objs w) (Inner k) = nd'"
    by blast
  have lin: "node_id nd = CHR ''#'' # k" using l nd unfolding linked_def by blast
  have ds: "daughters nd' = daughters nd" by (subst nd') simp
  have 1: "node_id nd' = CHR ''#'' # k" using lin by (subst nd') simp
  have sp: "strID nd' = leaf_span st k" using ids [OF m] e by simp
  have 2: "sorted_wrt (<) (strID nd')"
    unfolding sp leaf_span_def by simp
  have 3: "\<forall>x \<in> set (strID nd'). 0 \<le> x"
    unfolding sp leaf_span_def by (auto simp: finite_dominated_leaves)
  have each: "strID (deref (objs w) d) = ref_span st d" if d: "d \<in> set (daughters nd)" for d
  proof (cases d)
    case (Leaf s)
    have s: "s < length (leaves st)"
      using linked_daughter_refs [OF l nd d] Leaf by simp
    have "leaves (objs w) = leaves st" using same by (simp add: same_tree_def)
    then have "strID (deref (objs w) d) = [int s]"
      using l s Leaf by (simp add: deref_def linked_def)
    then show ?thesis using Leaf by (simp add: ref_span_def ref_leaves_def)
  next
    case (Inner k')
    have k': "k' \<in> fst ` set (nodes st)"
      using linked_daughter_refs [OF l nd d] Inner by simp
    from inv_lookup [OF same k'] obtain n1 n1' where
      n1: "map_of (nodes (objs w)) k' = Some n1'" "deref (objs w) (Inner k') = n1'"
      by blast
    have "strID n1' = leaf_span st k'" using ids [OF n1(1)] e by simp
    then show ?thesis
      using Inner n1(2) by (simp add: ref_span_def ref_leaves_def leaf_span_def)
  qed
  have spans: "daughter_spans (objs w) nd' = map (ref_span st) (daughters nd)"
    unfolding daughter_spans_def ds using each by (intro map_cong) simp_all
  have 4: "\<forall>D \<in> set (daughter_spans (objs w) nd'). D \<noteq> []"
    unfolding spans using ref_span_nonempty [OF l wf nd] by auto
  have "leaf_span st k = sort (concat (map (ref_span st) (daughters nd)))"
    using l a nd by (rule leaf_span_daughters)
  then have 5: "mset (concat (daughter_spans (objs w) nd')) = mset (strID nd')"
    unfolding spans sp by simp
  from 1 2 3 4 5 show ?thesis unfolding dr by (intro conjI)
qed

section \<open>A tree with eleven leaves\<close>

text \<open>
  The sentence has the positions 0 to 10, so that the text of the token of position 1 is a
  prefix of the text of the token of position 10. \<open>store_wide\<close> holds the objects when the
  propagation has returned, \<open>node_wide\<close> is the root.
\<close>

definition tree_wide :: "string list" where
  "tree_wide =
     [negra_line ''a'' ''A'' ''502'', negra_line ''b'' ''B'' ''502'', negra_line ''c'' ''C'' ''501'',
      negra_line ''d'' ''C'' ''501'', negra_line ''e'' ''C'' ''501'', negra_line ''f'' ''C'' ''501'',
      negra_line ''g'' ''C'' ''501'', negra_line ''h'' ''C'' ''501'', negra_line ''i'' ''C'' ''501'',
      negra_line ''j'' ''C'' ''501'', negra_line ''k'' ''C'' ''501'',
      negra_line ''#501'' ''VP'' ''502'', negra_line ''#502'' ''S'' ''0'']"

definition store_wide :: store where
  "store_wide =
     \<lparr>leaves = [\<lparr>node_id = ''a'', label = ''A'', mother = ''502'', strID = [0], daughters = []\<rparr>,
                \<lparr>node_id = ''b'', label = ''B'', mother = ''502'', strID = [1], daughters = []\<rparr>,
                \<lparr>node_id = ''c'', label = ''C'', mother = ''501'', strID = [2], daughters = []\<rparr>,
                \<lparr>node_id = ''d'', label = ''C'', mother = ''501'', strID = [3], daughters = []\<rparr>,
                \<lparr>node_id = ''e'', label = ''C'', mother = ''501'', strID = [4], daughters = []\<rparr>,
                \<lparr>node_id = ''f'', label = ''C'', mother = ''501'', strID = [5], daughters = []\<rparr>,
                \<lparr>node_id = ''g'', label = ''C'', mother = ''501'', strID = [6], daughters = []\<rparr>,
                \<lparr>node_id = ''h'', label = ''C'', mother = ''501'', strID = [7], daughters = []\<rparr>,
                \<lparr>node_id = ''i'', label = ''C'', mother = ''501'', strID = [8], daughters = []\<rparr>,
                \<lparr>node_id = ''j'', label = ''C'', mother = ''501'', strID = [9], daughters = []\<rparr>,
                \<lparr>node_id = ''k'', label = ''C'', mother = ''501'', strID = [10], daughters = []\<rparr>],
      nodes = [(''501'', \<lparr>node_id = ''#501'', label = ''VP'', mother = ''502'',
                          strID = [2, 3, 4, 5, 6, 7, 8, 9, 10],
                          daughters = [Leaf 2, Leaf 3, Leaf 4, Leaf 5, Leaf 6, Leaf 7, Leaf 8,
                                       Leaf 9, Leaf 10]\<rparr>),
               (''502'', \<lparr>node_id = ''#502'', label = ''S'', mother = ''0'',
                          strID = [0, 1, 2, 3, 4, 5, 6, 7, 8, 9, 10],
                          daughters = [Leaf 0, Leaf 1, Inner ''501'']\<rparr>)]\<rparr>"

definition node_wide :: node where
  "node_wide = deref store_wide (Inner ''502'')"

lemma tree_wide_store:
  "(case build tree_wide of
      Inl e \<Rightarrow> None
    | Inr st \<Rightarrow> map_option objs (propagate \<lparr>nodesval = map fst (nodes st), nodes2 = [], objs = st\<rparr>))
   = Some store_wide"
  by code_simp

lemma forms_tree_wide:
  "forms_of (induce [] tree_wide) =
     Some (Inr [''A(a)->eps'', ''B(b)->eps'', ''C(c)->eps'', ''C(d)->eps'', ''C(e)->eps'',
                ''C(f)->eps'', ''C(g)->eps'', ''C(h)->eps'', ''C(i)->eps'', ''C(j)->eps'',
                ''C(k)->eps'',
                ''VP(X_0X_1X_2X_3X_4X_5X_6X_7X_8)->C(X_0)C(X_1)C(X_2)C(X_3)C(X_4)C(X_5)C(X_6)C(X_7)C(X_8)'',
                ''S(X_0X_1X_2)->A(X_0)B(X_1)VP(X_2)''])"
  by code_simp

lemma node_wide_rule:
  "map_sum id form (Rule_init store_wide node_wide) = Inr ''S(X_0X_1X_2)->A(X_0)B(X_1)VP(X_2)''"
  by code_simp

lemma node_wide_hyps:
  "node_id node_wide = CHR ''#'' # ''502''"
  "sorted_wrt (<) (strID node_wide)"
  "\<forall>x \<in> set (strID node_wide). 0 \<le> x"
  "\<forall>D \<in> set (daughter_spans store_wide node_wide). D \<noteq> []"
  "mset (concat (daughter_spans store_wide node_wide)) = mset (strID node_wide)"
  by (simp_all add: node_wide_def store_wide_def deref_def daughter_spans_def)

lemma node_wide_tokens:
  "lhs_tokens (strID node_wide)
     = [[Pos 0, Pos 1, Pos 2, Pos 3, Pos 4, Pos 5, Pos 6, Pos 7, Pos 8, Pos 9, Pos 10]]"
  "rhs_runs (daughter_spans store_wide node_wide) = [[0], [1], [2, 3, 4, 5, 6, 7, 8, 9, 10]]"
  by (simp_all add: node_wide_def store_wide_def deref_def daughter_spans_def lhs_tokens_def
        rhs_runs_def runs_def)


lemma node_wide_contracted:
  "contract_tokens [[0], [1], [2, 3, 4, 5, 6, 7, 8, 9, 10]] 0
     [[Pos 0, Pos 1, Pos 2, Pos 3, Pos 4, Pos 5, Pos 6, Pos 7, Pos 8, Pos 9, Pos 10]]
   = [[Var 0, Var 1, Var 2]]"
  by simp

section \<open>Variable contraction\<close>

lemma rhs_args_tokens:
  assumes D: "\<forall>D \<in> set Ds. D \<noteq> [] \<and> (\<forall>x \<in> set D. 0 \<le> x)"
  shows "concat (map findArgs Ds) = map (\<lambda>r. rend (map Pos r)) (rhs_runs Ds)"
  using assms
proof (induction Ds)
  case Nil
  show ?case by (simp add: rhs_runs_def)
next
  case (Cons D Ds)
  have "findArgs D = map (\<lambda>r. rend (map Pos r)) (map (map nat) (runs D))"
    using Cons.prems by (intro findArgs_runs_tokens) simp_all
  moreover have "concat (map findArgs Ds) = map (\<lambda>r. rend (map Pos r)) (rhs_runs Ds)"
    using Cons.prems by (intro Cons.IH) simp
  ultimately show ?case by (simp add: rhs_runs_def)
qed

text \<open>
  C1. \<open>Rule.__init__\<close> on an internal node under the well-formed-tree invariant: the span of
  the node is a strictly increasing list of non-negative positions, every daughter has a
  non-empty span, and the spans of the daughters together are exactly the span of the node
  (by \<open>rule_preconditions_reached\<close> this holds for every node the rule loop visits on a
  built well-formed tree). Then the rule is built, and every left-hand-side argument is the
  concatenation of the texts of variables only: it has no \<open>Y\<close>, no variable stands twice on
  the left-hand side and every variable there is one of the allocated ones. Read off
  predicate by predicate, the right-hand-side arguments are exactly \<open>X_0\<close>, \<open>X_1\<close>, ... in
  this order, one variable each and pairwise different, and every right-hand-side predicate
  keeps the number of arguments that \<open>findArgs\<close> gives its daughter.
\<close>

theorem rule_contraction_total:
  assumes "node_id nd = CHR ''#'' # k"
    and "sorted_wrt (<) (strID nd)" and "\<forall>x \<in> set (strID nd). 0 \<le> x"
    and "\<forall>D \<in> set (daughter_spans st nd). D \<noteq> []"
    and "mset (concat (daughter_spans st nd)) = mset (strID nd)"
  shows "\<exists>r ps Lv. Rule_init st nd = Inr r \<and> rhs r = Preds ps
           \<and> args (lhs r) = map (\<lambda>vs. concat (map (\<lambda>v. ''X_'' @ str (int v)) vs)) Lv
           \<and> (\<forall>a \<in> set (args (lhs r)). CHR ''Y'' \<notin> set a)
           \<and> distinct (concat Lv)
           \<and> set (concat Lv) \<subseteq> {0..<length (concat (map args ps))}
           \<and> concat (map args ps)
               = map (\<lambda>m. ''X_'' @ str (int m)) [0..<length (concat (map args ps))]
           \<and> distinct (concat (map args ps))
           \<and> map (\<lambda>p. length (args p)) ps
               = map (\<lambda>d. length (findArgs (strID (deref st d)))) (daughters nd)"
proof -
  let ?W = "rhs_runs (daughter_spans st nd)"
  let ?L = "contract_tokens ?W 0 (lhs_tokens (strID nd))"
  let ?Lv = "map (map tk_num) ?L"
  let ?l = "\<lparr>name = label nd, args = map rend ?L\<rparr>"
  from Rule_init_tokens [OF assms] obtain ps where
    r: "Rule_init st nd = Inr \<lparr>lhs = ?l, rhs = Preds ps, form = Rule_mkform ?l (Preds ps)\<rparr>"
    and vs: "concat (map args ps) = map (\<lambda>k. tkstr (Var k)) [0..<length ?W]"
    and ar: "map (\<lambda>p. length (args p)) ps
              = map (\<lambda>d. length (findArgs (strID (deref st d)))) (daughters nd)"
    and inv: "contraction_inv ?L (length ?W) []"
    by (elim exE conjE)
  let ?r = "\<lparr>lhs = ?l, rhs = Preds ps, form = Rule_mkform ?l (Preds ps)\<rparr>"
  from contracted_vars [OF inv] have L: "?L = map (map Var) ?Lv"
    and d: "distinct (concat ?Lv)" and sub: "set (concat ?Lv) \<subseteq> {0..<length ?W}"
    by simp_all
  have n: "length (concat (map args ps)) = length ?W" by (simp add: vs)
  have "map rend ?L = map rend (map (map Var) ?Lv)" using L by simp
  also have "\<dots> = map (\<lambda>vs. rend (map Var vs)) ?Lv" by (simp add: comp_def)
  also have "\<dots> = map (\<lambda>vs. concat (map (\<lambda>v. ''X_'' @ str (int v)) vs)) ?Lv"
    by (simp only: rend_vars)
  finally have 1: "args (lhs ?r) = map (\<lambda>vs. concat (map (\<lambda>v. ''X_'' @ str (int v)) vs)) ?Lv"
    by simp
  have 2: "\<forall>a \<in> set (args (lhs ?r)). CHR ''Y'' \<notin> set a"
  proof
    fix a assume "a \<in> set (args (lhs ?r))"
    then have "a \<in> set (map (\<lambda>vs. rend (map Var vs)) ?Lv)"
      unfolding 1 by (simp only: rend_vars)
    then have "a \<in> (\<lambda>vs. rend (map Var vs)) ` set ?Lv" by (simp only: set_map)
    then obtain vs where "a = rend (map Var vs)" by (rule imageE)
    then show "CHR ''Y'' \<notin> set a" by (simp only: var_text_chars not_False_eq_True)
  qed
  have 3: "set (concat ?Lv) \<subseteq> {0..<length (concat (map args ps))}" using sub n by simp
  have 4: "concat (map args ps) = map (\<lambda>m. ''X_'' @ str (int m)) [0..<length (concat (map args ps))]"
    unfolding n using vs by (simp only: var_texts)
  have 5: "distinct (concat (map args ps))"
    unfolding vs by (rule var_texts_distinct) simp
  have 0: "Rule_init st nd = Inr ?r \<and> rhs ?r = Preds ps" using r by simp
  show ?thesis
    using 0 1 2 d 3 4 5 ar
    by (intro exI [of _ ?r] exI [of _ ps] exI [of _ ?Lv] conjI) (elim conjE, assumption)+
qed

theorem rule_contraction_total_witness:
  "node_id node_wide = ''#502''
   \<and> strID node_wide = [0, 1, 2, 3, 4, 5, 6, 7, 8, 9, 10]
   \<and> daughter_spans store_wide node_wide = [[0], [1], [2, 3, 4, 5, 6, 7, 8, 9, 10]]
   \<and> map_sum id form (Rule_init store_wide node_wide) = Inr ''S(X_0X_1X_2)->A(X_0)B(X_1)VP(X_2)''
   \<and> (\<exists>r ps Lv. Rule_init store_wide node_wide = Inr r \<and> rhs r = Preds ps
           \<and> args (lhs r) = map (\<lambda>vs. concat (map (\<lambda>v. ''X_'' @ str (int v)) vs)) Lv
           \<and> (\<forall>a \<in> set (args (lhs r)). CHR ''Y'' \<notin> set a)
           \<and> distinct (concat Lv)
           \<and> set (concat Lv) \<subseteq> {0..<length (concat (map args ps))}
           \<and> concat (map args ps)
               = map (\<lambda>m. ''X_'' @ str (int m)) [0..<length (concat (map args ps))]
           \<and> distinct (concat (map args ps))
           \<and> map (\<lambda>p. length (args p)) ps
               = map (\<lambda>d. length (findArgs (strID (deref store_wide d)))) (daughters node_wide))"
proof -
  have 1: "node_id node_wide = ''#502''"
    and 2: "strID node_wide = [0, 1, 2, 3, 4, 5, 6, 7, 8, 9, 10]"
    and 3: "daughter_spans store_wide node_wide = [[0], [1], [2, 3, 4, 5, 6, 7, 8, 9, 10]]"
    by (simp_all add: node_wide_def store_wide_def deref_def daughter_spans_def)
  note 4 = node_wide_rule
  note 5 = rule_contraction_total [OF node_wide_hyps]
  from 1 2 3 4 5 show ?thesis by (intro conjI)
qed

text \<open>
  C2. Under the same invariant the contraction of lines 154-168, with all its loops, is the
  replacement of token runs: before the contraction the left-hand-side arguments are the
  texts of the token sequences \<open>lhs_tokens\<close> and the right-hand-side arguments, in loop
  order, the texts of the runs of positions \<open>rhs_runs\<close>; afterwards the left-hand-side
  arguments are the texts of \<open>contract_tokens\<close>. For the \<open>m\<close>-th right-hand-side argument
  its run of position tokens stands as a run of whole tokens in a left-hand-side argument \<open>j\<close>
  between \<open>pre\<close> and \<open>post\<close>, and the round replaces exactly that run by the variable \<open>X_m\<close>:
  \<open>pre\<close>, \<open>post\<close> and every other argument stay as they are, and the right-hand-side
  argument becomes that variable. A token whose text is a prefix of the text of a longer
  token (\<open>Y_1\<close> and \<open>Y_10\<close>) is another token and is never replaced inside the longer one.
\<close>

theorem contraction_replaces_token_runs:
  assumes "node_id nd = CHR ''#'' # k"
    and "sorted_wrt (<) (strID nd)" and "\<forall>x \<in> set (strID nd). 0 \<le> x"
    and "\<forall>D \<in> set (daughter_spans st nd). D \<noteq> []"
    and "mset (concat (daughter_spans st nd)) = mset (strID nd)"
  shows "\<exists>r ps. Rule_init st nd = Inr r \<and> rhs r = Preds ps
           \<and> findArgs (strID nd) = map rend (lhs_tokens (strID nd))
           \<and> concat (map findArgs (daughter_spans st nd))
               = map (\<lambda>r. rend (map Pos r)) (rhs_runs (daughter_spans st nd))
           \<and> args (lhs r)
               = map rend (contract_tokens (rhs_runs (daughter_spans st nd)) 0
                             (lhs_tokens (strID nd)))
           \<and> concat (map args ps)
               = map (\<lambda>m. ''X_'' @ str (int m)) [0..<length (rhs_runs (daughter_spans st nd))]
           \<and> (\<forall>m<length (rhs_runs (daughter_spans st nd)). \<exists>j pre post.
                 j < length (lhs_tokens (strID nd))
                 \<and> contract_tokens (take m (rhs_runs (daughter_spans st nd))) 0
                       (lhs_tokens (strID nd)) ! j
                     = pre @ map Pos (rhs_runs (daughter_spans st nd) ! m) @ post
                 \<and> contract_tokens (take (Suc m) (rhs_runs (daughter_spans st nd))) 0
                       (lhs_tokens (strID nd))
                     = (contract_tokens (take m (rhs_runs (daughter_spans st nd))) 0
                          (lhs_tokens (strID nd)))[j := pre @ Var m # post])"
proof -
  let ?W = "rhs_runs (daughter_spans st nd)"
  let ?I = "lhs_tokens (strID nd)"
  let ?L = "contract_tokens ?W 0 ?I"
  let ?l = "\<lparr>name = label nd, args = map rend ?L\<rparr>"
  from Rule_init_tokens [OF assms] obtain ps where
    r: "Rule_init st nd = Inr \<lparr>lhs = ?l, rhs = Preds ps, form = Rule_mkform ?l (Preds ps)\<rparr>"
    and vs: "concat (map args ps) = map (\<lambda>k. tkstr (Var k)) [0..<length ?W]"
    by (elim exE conjE)
  let ?r = "\<lparr>lhs = ?l, rhs = Preds ps, form = Rule_mkform ?l (Preds ps)\<rparr>"
  have setD: "set (concat (daughter_spans st nd)) = set (strID nd)"
    using assms(5) by (rule mset_eq_setD)
  have "\<forall>D \<in> set (daughter_spans st nd). D \<noteq> [] \<and> (\<forall>x \<in> set D. 0 \<le> x)"
  proof (intro ballI conjI)
    fix D assume D: "D \<in> set (daughter_spans st nd)"
    then show "D \<noteq> []" using assms(4) by blast
    fix x assume "x \<in> set D"
    then have "x \<in> set (concat (daughter_spans st nd))" using D by auto
    then show "0 \<le> x" using setD assms(3) by blast
  qed
  then have 2: "concat (map findArgs (daughter_spans st nd)) = map (\<lambda>r. rend (map Pos r)) ?W"
    by (rule rhs_args_tokens)
  have 1: "findArgs (strID nd) = map rend ?I" using assms(3) by (rule findArgs_tokens)
  have inv0: "contraction_inv ?I 0 ?W"
    using assms(2,3,4,5) by (rule initial_contraction_inv)
  have 5: "\<forall>m<length ?W. \<exists>j pre post. j < length ?I
             \<and> contract_tokens (take m ?W) 0 ?I ! j = pre @ map Pos (?W ! m) @ post
             \<and> contract_tokens (take (Suc m) ?W) 0 ?I
                 = (contract_tokens (take m ?W) 0 ?I)[j := pre @ Var m # post]"
    using contract_tokens_step [OF inv0] by (intro allI impI)
  have 3: "args (lhs ?r) = map rend ?L" by simp
  have 4: "concat (map args ps) = map (\<lambda>m. ''X_'' @ str (int m)) [0..<length ?W]"
    using vs by (simp only: var_texts)
  have 0: "Rule_init st nd = Inr ?r" using r .
  have 00: "rhs ?r = Preds ps" by simp
  show ?thesis
    using 0 00 1 2 3 4 5
    by (intro exI [of _ ?r] exI [of _ ps] conjI)
qed

theorem contraction_replaces_token_runs_witness:
  "node_id node_wide = ''#502''
   \<and> lhs_tokens (strID node_wide)
       = [[Pos 0, Pos 1, Pos 2, Pos 3, Pos 4, Pos 5, Pos 6, Pos 7, Pos 8, Pos 9, Pos 10]]
   \<and> rhs_runs (daughter_spans store_wide node_wide) = [[0], [1], [2, 3, 4, 5, 6, 7, 8, 9, 10]]
   \<and> (\<exists>r ps. Rule_init store_wide node_wide = Inr r \<and> rhs r = Preds ps
         \<and> findArgs (strID node_wide) = [''Y_0Y_1Y_2Y_3Y_4Y_5Y_6Y_7Y_8Y_9Y_10'']
         \<and> concat (map findArgs (daughter_spans store_wide node_wide))
             = [''Y_0'', ''Y_1'', ''Y_2Y_3Y_4Y_5Y_6Y_7Y_8Y_9Y_10'']
         \<and> args (lhs r) = map rend [[Var 0, Var 1, Var 2]]
         \<and> args (lhs r) = [''X_0X_1X_2'']
         \<and> concat (map args ps) = [''X_0'', ''X_1'', ''X_2''])"
proof -
  have 1: "node_id node_wide = ''#502''"
    by (simp add: node_wide_def store_wide_def deref_def)
  note t = node_wide_tokens
  from contraction_replaces_token_runs [OF node_wide_hyps] obtain r ps where
    r: "Rule_init store_wide node_wide = Inr r" "rhs r = Preds ps"
    and f: "findArgs (strID node_wide) = map rend (lhs_tokens (strID node_wide))"
    and g: "concat (map findArgs (daughter_spans store_wide node_wide))
             = map (\<lambda>r. rend (map Pos r)) (rhs_runs (daughter_spans store_wide node_wide))"
    and l: "args (lhs r) = map rend (contract_tokens (rhs_runs (daughter_spans store_wide node_wide)) 0
                             (lhs_tokens (strID node_wide)))"
    and v: "concat (map args ps)
             = map (\<lambda>m. ''X_'' @ str (int m)) [0..<length (rhs_runs (daughter_spans store_wide node_wide))]"
    by (elim exE conjE)
  have f': "findArgs (strID node_wide) = [''Y_0Y_1Y_2Y_3Y_4Y_5Y_6Y_7Y_8Y_9Y_10'']"
    unfolding f t by code_simp
  have g': "concat (map findArgs (daughter_spans store_wide node_wide))
             = [''Y_0'', ''Y_1'', ''Y_2Y_3Y_4Y_5Y_6Y_7Y_8Y_9Y_10'']"
    unfolding g t by code_simp
  have l': "args (lhs r) = map rend [[Var 0, Var 1, Var 2]]"
    using l unfolding t node_wide_contracted .
  have "map rend [[Var 0, Var 1, Var 2]] = [''X_0X_1X_2'']" by code_simp
  then have l'': "args (lhs r) = [''X_0X_1X_2'']" using l' by simp
  have "map (\<lambda>m. ''X_'' @ str (int m)) [0..<length [[0::nat], [1], [2, 3, 4, 5, 6, 7, 8, 9, 10]]]
      = [''X_0'', ''X_1'', ''X_2'']" by code_simp
  then have v': "concat (map args ps) = [''X_0'', ''X_1'', ''X_2'']" using v unfolding t by simp
  have "Rule_init store_wide node_wide = Inr r \<and> rhs r = Preds ps
         \<and> findArgs (strID node_wide) = [''Y_0Y_1Y_2Y_3Y_4Y_5Y_6Y_7Y_8Y_9Y_10'']
         \<and> concat (map findArgs (daughter_spans store_wide node_wide))
             = [''Y_0'', ''Y_1'', ''Y_2Y_3Y_4Y_5Y_6Y_7Y_8Y_9Y_10'']
         \<and> args (lhs r) = map rend [[Var 0, Var 1, Var 2]]
         \<and> args (lhs r) = [''X_0X_1X_2'']
         \<and> concat (map args ps) = [''X_0'', ''X_1'', ''X_2'']"
    using r f' g' l' l'' v' by (intro conjI)
  then have e: "\<exists>r ps. Rule_init store_wide node_wide = Inr r \<and> rhs r = Preds ps
         \<and> findArgs (strID node_wide) = [''Y_0Y_1Y_2Y_3Y_4Y_5Y_6Y_7Y_8Y_9Y_10'']
         \<and> concat (map findArgs (daughter_spans store_wide node_wide))
             = [''Y_0'', ''Y_1'', ''Y_2Y_3Y_4Y_5Y_6Y_7Y_8Y_9Y_10'']
         \<and> args (lhs r) = map rend [[Var 0, Var 1, Var 2]]
         \<and> args (lhs r) = [''X_0X_1X_2'']
         \<and> concat (map args ps) = [''X_0'', ''X_1'', ''X_2'']"
    by (intro exI)
  from 1 t e show ?thesis by (intro conjI)
qed

section \<open>A leaf under the root\<close>

text \<open>
  A sentence whose punctuation mark hangs under the root: every mother id is \<open>0\<close> or the
  id of the declared internal node, the mother relation is acyclic and the internal node
  dominates a leaf.
\<close>

definition tree_punct :: "string list" where
  "tree_punct =
     [negra_line ''a'' ''A'' ''500'', negra_line ''.'' ''PUNCT'' ''0'', negra_line ''#500'' ''S'' ''0'']"

text \<open>
  C3. Line 63 keeps an internal node whose mother is \<open>0\<close> out of the lookup (a root node is
  not the daughter of any node), line 60 has no such test for a leaf: on \<open>tree_punct\<close> the
  lookup \<open>nodes["0"]\<close> raises KeyError, so \<open>induce\<close> leaves before the span propagation and
  no internal node of this well-formed tree gets its span. On every well-formed tree whose
  leaves all hang under internal nodes the spans are as specified
  (\<open>span_propagation_correct\<close>).
\<close>

theorem leaf_under_root_raises:
  "map record_id tree_punct = [''a'', ''.'', ''#500'']
   \<and> map (\<lambda>line. py_split tab line ! 5) tree_punct = [''500'', ''0'', ''0'']
   \<and> build tree_punct = Inl KeyError
   \<and> induce [] tree_punct = Some (Inl KeyError)"
  by code_simp

end
